theory Spec2Isabelle
  imports Complex_Main
begin

section \<open>Strings\<close>

text \<open>
  JavaScript strings are modelled as \<^typ>\<open>string\<close>: a list of code units, here the units
  below 256. Every unit above that range lies outside the class \<open>[\w.-]\<close>, like the
  non-ASCII units of \<^typ>\<open>char\<close>, and takes the same branches.
\<close>

definition is_word_char :: "char \<Rightarrow> bool" where
  \<comment> \<open>the regular expression class \<open>\w\<close>, that is \<open>[A-Za-z0-9_]\<close>\<close>
  "is_word_char c =
     (let n = (of_char c :: nat)
      in (65 \<le> n \<and> n \<le> 90) \<or> (97 \<le> n \<and> n \<le> 122) \<or> (48 \<le> n \<and> n \<le> 57) \<or> n = 95)"

definition is_part_char :: "char \<Rightarrow> bool" where
  \<comment> \<open>the class \<open>[\w.-]\<close>\<close>
  "is_part_char c = (is_word_char c \<or> c = CHR ''.'' \<or> c = CHR ''-'')"

definition is_js_space :: "char \<Rightarrow> bool" where
  \<comment> \<open>white space and line terminators that \<open>String.prototype.trim\<close> strips, below 256\<close>
  "is_js_space c = ((of_char c :: nat) \<in> {9, 10, 11, 12, 13, 32, 160})"

definition trim :: "string \<Rightarrow> string" where
  "trim s = rev (dropWhile is_js_space (rev (dropWhile is_js_space s)))"

section \<open>The export API plugin: file name components\<close>

text \<open>\<open>value.replace(/[^\w.-]+/g, '-')\<close>: every maximal run of characters outside the class
  becomes one dash.\<close>

function replace_unsafe_runs :: "string \<Rightarrow> string" where
  "replace_unsafe_runs [] = []"
| "replace_unsafe_runs (c # cs) =
     (if is_part_char c then c # replace_unsafe_runs cs
      else CHR ''-'' # replace_unsafe_runs (dropWhile (\<lambda>d. \<not> is_part_char d) cs))"
  by pat_completeness auto
termination
  by (relation "measure length") (auto simp: length_dropWhile_le less_Suc_eq_le)

text \<open>\<open>value.replace(/-+/g, '-')\<close>: every maximal run of dashes becomes one dash.\<close>

function collapse_dashes :: "string \<Rightarrow> string" where
  "collapse_dashes [] = []"
| "collapse_dashes (c # cs) =
     (if c = CHR ''-'' then CHR ''-'' # collapse_dashes (dropWhile (\<lambda>d. d = CHR ''-'') cs)
      else c # collapse_dashes cs)"
  by pat_completeness auto
termination
  by (relation "measure length") (auto simp: length_dropWhile_le less_Suc_eq_le)

text \<open>\<open>value.replace(/^-|-$/g, '')\<close>: the scan removes a dash at position 0, goes on behind
  it, and removes a dash at the last position of what is left.\<close>

definition strip_edge_dashes :: "string \<Rightarrow> string" where
  "strip_edge_dashes s =
     (let s1 = (case s of [] \<Rightarrow> [] | c # cs \<Rightarrow> if c = CHR ''-'' then cs else s)
      in if s1 \<noteq> [] \<and> last s1 = CHR ''-'' then butlast s1 else s1)"

definition sanitizePart :: "string \<Rightarrow> string" where
  "sanitizePart v = strip_edge_dashes (collapse_dashes (replace_unsafe_runs (trim v)))"

fun has_dash_run :: "string \<Rightarrow> bool" where
  "has_dash_run (a # b # cs) = ((a = CHR ''-'' \<and> b = CHR ''-'') \<or> has_dash_run (b # cs))"
| "has_dash_run _ = False"

section \<open>The PDF outline\<close>

record SlideInfo =
  index :: nat
  title :: "string option"
  level :: "int option"
  hideInToc :: bool

datatype TocItem = TocItem (toc_no: nat) (toc_children: "TocItem list") (toc_level: nat)
  (toc_titleLevel: int) (toc_path: string) (toc_hideInToc: bool) (toc_title: "string option")

definition truthy_str :: "string option \<Rightarrow> bool" where
  "truthy_str t = (case t of None \<Rightarrow> False | Some s \<Rightarrow> s \<noteq> [])"

function show_nat :: "nat \<Rightarrow> string" where
  "show_nat n = (if n < 10 then [char_of (48 + n)] else show_nat (n div 10) @ [char_of (48 + n mod 10)])"
  by pat_completeness auto
termination
  by (relation "measure id") auto

declare show_nat.simps [simp del]

definition js_String :: "nat option \<Rightarrow> string" where
  "js_String v = (case v of None \<Rightarrow> ''undefined'' | Some n \<Rightarrow> show_nat n)"

definition set_children :: "TocItem \<Rightarrow> TocItem list \<Rightarrow> TocItem" where
  "set_children it cs =
     TocItem (toc_no it) cs (toc_level it) (toc_titleLevel it) (toc_path it) (toc_hideInToc it)
       (toc_title it)"

definition descends :: "int option \<Rightarrow> nat \<Rightarrow> TocItem list \<Rightarrow> bool" where
  "descends titleLevel lvl tree =
     (case titleLevel of None \<Rightarrow> False
      | Some t \<Rightarrow> t \<noteq> 0 \<and> t > int lvl \<and> tree \<noteq> [] \<and> toc_titleLevel (last tree) < t)"

lemma size_children_last:
  "tree \<noteq> [] \<Longrightarrow> size_list size (toc_children (last tree)) < size_list size tree"
proof (induction tree)
  case Nil
  then show ?case by simp
next
  case (Cons a tree)
  show ?case
  proof (cases "tree = []")
    case True
    then show ?thesis by (cases a) simp
  next
    case False
    then show ?thesis using Cons by simp
  qed
qed

function addToTree :: "TocItem list \<Rightarrow> SlideInfo \<Rightarrow> (nat \<rightharpoonup> nat) \<Rightarrow> nat \<Rightarrow> TocItem list" where
  "addToTree tree info slideIndexes lvl =
     (if descends (level info) lvl tree
      then butlast tree @
        [set_children (last tree) (addToTree (toc_children (last tree)) info slideIndexes (lvl + 1))]
      else tree @
        [TocItem (index info) [] lvl (case level info of None \<Rightarrow> int lvl | Some t \<Rightarrow> t)
           (js_String (slideIndexes (index info + 1))) (hideInToc info) (title info)])"
  by pat_completeness auto
termination
  by (relation "measure (\<lambda>(tree, _, _, _). size_list size tree)")
    (auto simp: descends_def size_children_last split: option.splits)

declare addToTree.simps [simp del]

fun join :: "string \<Rightarrow> string list \<Rightarrow> string" where
  "join sep [] = []"
| "join sep [x] = x"
| "join sep (x # y # ys) = x @ sep @ join sep (y # ys)"

definition newline :: string where
  "newline = [CHR 0x0A]"

fun itemOutline :: "TocItem \<Rightarrow> string option" where
  "itemOutline (TocItem n cs lvl tlv p h t) =
     (let rootOutline =
            (if truthy_str t
             then Some (p @ ''|'' @ replicate (lvl - 1) CHR ''-'' @ ''|'' @ the t)
             else None);
          childrenOutline = join newline (map the (filter truthy_str (map itemOutline cs)))
      in if childrenOutline \<noteq> []
         then Some ((case rootOutline of None \<Rightarrow> ''null'' | Some r \<Rightarrow> r) @ newline @ childrenOutline)
         else rootOutline)"

definition makeOutline :: "TocItem list \<Rightarrow> string" where
  "makeOutline tree = join newline (map the (filter truthy_str (map itemOutline tree)))"

definition tocTree :: "SlideInfo list \<Rightarrow> (nat \<rightharpoonup> nat) \<Rightarrow> TocItem list" where
  "tocTree slides slideIndexes =
     foldl (\<lambda>acc slide. addToTree acc slide slideIndexes 1) []
       (filter (\<lambda>slide. truthy_str (title slide)) slides)"

fun flatten_item :: "TocItem \<Rightarrow> TocItem list" where
  "flatten_item (TocItem n cs lvl tlv p h t) =
     TocItem n cs lvl tlv p h t # concat (map flatten_item cs)"

definition flatten :: "TocItem list \<Rightarrow> TocItem list" where
  "flatten tree = concat (map flatten_item tree)"

definition item_line :: "TocItem \<Rightarrow> string" where
  "item_line it =
     toc_path it @ ''|'' @ replicate (toc_level it - 1) CHR ''-'' @ ''|'' @ the (toc_title it)"

definition bare :: "TocItem \<Rightarrow> TocItem" where
  "bare it = set_children it []"

fun levels_ok :: "nat \<Rightarrow> TocItem \<Rightarrow> bool" where
  "levels_ok d (TocItem n cs lvl tlv p h t) = (lvl = d \<and> list_all (levels_ok (Suc d)) cs)"

function insert_depth :: "TocItem list \<Rightarrow> int option \<Rightarrow> nat \<Rightarrow> nat" where
  "insert_depth tree tlv lvl =
     (if descends tlv lvl tree then insert_depth (toc_children (last tree)) tlv (lvl + 1) else lvl)"
  by pat_completeness auto

termination
  by (relation "measure (\<lambda>(tree, _, _). size_list size tree)")
    (auto simp: descends_def size_children_last split: option.splits)

declare insert_depth.simps [simp del]

definition new_item :: "SlideInfo \<Rightarrow> (nat \<rightharpoonup> nat) \<Rightarrow> nat \<Rightarrow> TocItem" where
  "new_item info slideIndexes d =
     TocItem (index info) [] d (case level info of None \<Rightarrow> int d | Some t \<Rightarrow> t)
       (js_String (slideIndexes (index info + 1))) (hideInToc info) (title info)"

definition titled :: "SlideInfo list \<Rightarrow> SlideInfo list" where
  "titled slides = filter (\<lambda>slide. truthy_str (title slide)) slides"

definition outline_line :: "SlideInfo \<Rightarrow> (nat \<rightharpoonup> nat) \<Rightarrow> nat \<Rightarrow> string" where
  "outline_line s slideIndexes d =
     js_String (slideIndexes (index s + 1)) @ ''|'' @ replicate (d - 1) CHR ''-'' @ ''|'' @
       the (title s)"

definition toc_depths :: "SlideInfo list \<Rightarrow> (nat \<rightharpoonup> nat) \<Rightarrow> nat list" where
  "toc_depths slides slideIndexes = map toc_level (flatten (tocTree slides slideIndexes))"

definition title_level :: "SlideInfo \<Rightarrow> int" where
  "title_level s = (case level s of None \<Rightarrow> 1 | Some t \<Rightarrow> t)"

definition rows :: "TocItem list \<Rightarrow> TocItem list" where
  "rows tree = map bare (flatten tree)"

definition build :: "(nat \<rightharpoonup> nat) \<Rightarrow> SlideInfo list \<Rightarrow> TocItem list" where
  "build slideIndexes ss = foldl (\<lambda>acc slide. addToTree acc slide slideIndexes 1) [] ss"

text \<open>
  The nesting of the outline in the words of its rule, from the title levels of the titled
  slides alone, with no tree. The titles that are open are kept outermost first. A slide of
  title level \<open>t\<close> stays under the longest initial part of the open titles in which the title
  at depth \<open>j\<close> has \<open>j < t\<close> and a title level below \<open>t\<close>; its depth is one more than the
  length of that part, and it becomes the last open title behind that part.
\<close>

fun stays_open :: "nat \<Rightarrow> int \<Rightarrow> int list \<Rightarrow> int list" where
  \<comment> \<open>\<open>stays_open d t ls\<close>: the initial part of the open titles \<open>ls\<close>, the first of them at
     depth \<open>d\<close>, that stays open for a slide of title level \<open>t\<close>\<close>
  "stays_open d t [] = []"
| "stays_open d t (l # ls) = (if int d < t \<and> l < t then l # stays_open (Suc d) t ls else [])"

fun nested_depths :: "int list \<Rightarrow> int list \<Rightarrow> nat list" where
  \<comment> \<open>the depths of slides with the given title levels, behind the given open titles\<close>
  "nested_depths opened [] = []"
| "nested_depths opened (t # ts) =
     Suc (length (stays_open 1 t opened)) # nested_depths (stays_open 1 t opened @ [t]) ts"

definition outline_depths :: "SlideInfo list \<Rightarrow> nat list" where
  "outline_depths slides = nested_depths [] (map title_level (titled slides))"

text \<open>
  The decks on which the claim's count of dashes is right: the title levels of the titled
  slides start at 1, and each is at least 1 and at most one more than the one before.
\<close>

fun rises_by_one :: "int \<Rightarrow> int list \<Rightarrow> bool" where
  "rises_by_one p [] = True"
| "rises_by_one p (t # ts) = (1 \<le> t \<and> t \<le> p + 1 \<and> rises_by_one t ts)"

definition well_nested :: "SlideInfo list \<Rightarrow> bool" where
  "well_nested slides = rises_by_one 0 (map title_level (titled slides))"

definition claimed_line :: "(nat \<rightharpoonup> nat) \<Rightarrow> SlideInfo \<Rightarrow> string" where
  \<comment> \<open>the line of the claim: as many dashes as the title level minus 1\<close>
  "claimed_line slideIndexes s =
     js_String (slideIndexes (index s + 1)) @ ''|'' @ replicate (nat (title_level s - 1)) CHR ''-''
       @ ''|'' @ the (title s)"

text \<open>The open titles of a tree: the title levels along its last items, outermost first.\<close>

function spine :: "TocItem list \<Rightarrow> int list" where
  "spine tree =
     (if tree = [] then [] else toc_titleLevel (last tree) # spine (toc_children (last tree)))"
  by pat_completeness auto
termination
  by (relation "measure (size_list size)") (auto simp: size_children_last)

declare spine.simps [simp del]

definition stored_level :: "int option \<Rightarrow> nat \<Rightarrow> int" where
  \<comment> \<open>\<open>titleLevel ?? level\<close>\<close>
  "stored_level tlv lvl = (case tlv of None \<Rightarrow> int lvl | Some t \<Rightarrow> t)"

definition open_after :: "int list \<Rightarrow> int list \<Rightarrow> int list" where
  \<comment> \<open>the open titles behind slides of the given title levels\<close>
  "open_after opened ts = foldl (\<lambda>opn t. stays_open 1 t opn @ [t]) opened ts"

section \<open>Numbers\<close>

text \<open>
  A JavaScript number is modelled as an exact rational, one of the two infinities, or NaN.
  Arithmetic on finite values is exact: the rounding of IEEE doubles and the sign of zero
  are not modelled.
\<close>

datatype jsnum = NaN | NInf | Fin rat | PInf

fun js_add :: "jsnum \<Rightarrow> jsnum \<Rightarrow> jsnum" where
  "js_add (Fin a) (Fin b) = Fin (a + b)"
| "js_add NaN _ = NaN"
| "js_add _ NaN = NaN"
| "js_add PInf NInf = NaN"
| "js_add NInf PInf = NaN"
| "js_add PInf _ = PInf"
| "js_add _ PInf = PInf"
| "js_add NInf _ = NInf"
| "js_add _ NInf = NInf"

fun js_sgn :: "jsnum \<Rightarrow> int" where
  "js_sgn (Fin a) = (if a < 0 then - 1 else if a = 0 then 0 else 1)"
| "js_sgn PInf = 1"
| "js_sgn NInf = - 1"
| "js_sgn NaN = 0"

fun js_mul :: "jsnum \<Rightarrow> jsnum \<Rightarrow> jsnum" where
  "js_mul (Fin a) (Fin b) = Fin (a * b)"
| "js_mul NaN _ = NaN"
| "js_mul _ NaN = NaN"
| "js_mul a b =
     (if js_sgn a * js_sgn b = 0 then NaN else if js_sgn a * js_sgn b < 0 then NInf else PInf)"

fun js_lt :: "jsnum \<Rightarrow> jsnum \<Rightarrow> bool" where
  "js_lt (Fin a) (Fin b) = (a < b)"
| "js_lt NaN _ = False"
| "js_lt _ NaN = False"
| "js_lt NInf b = (b \<noteq> NInf)"
| "js_lt a PInf = (a \<noteq> PInf)"
| "js_lt _ _ = False"

definition js_le :: "jsnum \<Rightarrow> jsnum \<Rightarrow> bool" where
  "js_le a b = (a \<noteq> NaN \<and> b \<noteq> NaN \<and> (a = b \<or> js_lt a b))"

definition js_min :: "jsnum \<Rightarrow> jsnum \<Rightarrow> jsnum" where
  \<comment> \<open>\<open>Math.min\<close>: NaN when an argument is NaN\<close>
  "js_min a b = (if a = NaN \<or> b = NaN then NaN else if js_lt b a then b else a)"

definition js_max :: "jsnum \<Rightarrow> jsnum \<Rightarrow> jsnum" where
  \<comment> \<open>\<open>Math.max\<close>: NaN when an argument is NaN\<close>
  "js_max a b = (if a = NaN \<or> b = NaN then NaN else if js_lt a b then b else a)"

definition js_or0 :: "jsnum \<Rightarrow> jsnum" where
  \<comment> \<open>\<open>x || 0\<close>: NaN and 0 are the falsy numbers\<close>
  "js_or0 x = (if x = NaN \<or> x = Fin 0 then Fin 0 else x)"

definition js_isFinite :: "jsnum \<Rightarrow> bool" where
  "js_isFinite x = (case x of Fin _ \<Rightarrow> True | _ \<Rightarrow> False)"

definition js_isInteger :: "jsnum \<Rightarrow> bool" where
  "js_isInteger x = (case x of Fin a \<Rightarrow> a = of_int \<lfloor>a\<rfloor> | _ \<Rightarrow> False)"

definition endsWith :: "string \<Rightarrow> string \<Rightarrow> bool" where
  "endsWith v s = (length s \<le> length v \<and> drop (length v - length s) v = s)"

definition slice_end :: "string \<Rightarrow> nat \<Rightarrow> string" where
  \<comment> \<open>\<open>value.slice(0, -n)\<close>\<close>
  "slice_end v n = take (length v - n) v"

section \<open>The stabilizer: the settle budget\<close>

text \<open>
  \<open>parseMs\<close> inside \<open>getTransitionSettleBudget\<close>. \<open>Number.parseFloat\<close> belongs to the
  language, not to the repository: it is the parameter \<open>parseFloat\<close>, which answers NaN for
  a string with no numeric prefix.
\<close>

definition parseMs :: "(string \<Rightarrow> jsnum) \<Rightarrow> string \<Rightarrow> jsnum" where
  "parseMs parseFloat v =
     (if v = [] then Fin 0
      else if endsWith v ''ms'' then js_or0 (parseFloat (slice_end v 2))
      else if endsWith v ''s'' then js_mul (js_or0 (parseFloat (slice_end v 1))) (Fin 1000)
      else js_or0 (parseFloat v))"

text \<open>\<open>raw\<close> is what \<open>getPropertyValue('--slidev-transition-duration')\<close> returns.\<close>

definition getTransitionSettleBudget :: "(string \<Rightarrow> jsnum) \<Rightarrow> string \<Rightarrow> jsnum" where
  "getTransitionSettleBudget parseFloat raw =
     js_max (Fin 120) (js_min (Fin 3000) (js_add (parseMs parseFloat (trim raw)) (Fin 300)))"

text \<open>The claim's words: the duration a CSS time value stands for, and clamping.\<close>

definition zero_if_unparsable :: "jsnum \<Rightarrow> jsnum" where
  "zero_if_unparsable x = (if x = NaN then Fin 0 else x)"

definition strip_suffix :: "string \<Rightarrow> string \<Rightarrow> string option" where
  "strip_suffix suf v =
     (if length suf \<le> length v \<and> drop (length v - length suf) v = suf
      then Some (take (length v - length suf) v) else None)"

definition css_duration_ms :: "(string \<Rightarrow> jsnum) \<Rightarrow> string \<Rightarrow> jsnum" where
  "css_duration_ms parseFloat v =
     (if v = [] then Fin 0
      else case strip_suffix ''ms'' v of
        Some p \<Rightarrow> zero_if_unparsable (parseFloat p)
      | None \<Rightarrow>
         (case strip_suffix ''s'' v of
            Some p \<Rightarrow> js_mul (zero_if_unparsable (parseFloat p)) (Fin 1000)
          | None \<Rightarrow> zero_if_unparsable (parseFloat v)))"

definition js_clamp :: "jsnum \<Rightarrow> jsnum \<Rightarrow> jsnum \<Rightarrow> jsnum" where
  "js_clamp x lo hi = (if js_lt x lo then lo else if js_lt hi x then hi else x)"

definition budget_in_range :: "jsnum \<Rightarrow> bool" where
  "budget_in_range b = (case b of Fin r \<Rightarrow> 120 \<le> r \<and> r \<le> 3000 | _ \<Rightarrow> False)"

section \<open>The step bridge\<close>

text \<open>A thrown \<open>Error\<close> with its message.\<close>

datatype exn = Error string

record Mp4StepInfo =
  no :: jsnum
  clicks :: jsnum
  clicksTotal :: jsnum
  hasNext :: bool

text \<open>
  \<open>MaybeRefValue<T> = T | { value?: T }\<close>: a plain value, an object with a \<open>value\<close> key
  (whose value may be undefined), or an object without that key.
\<close>

datatype 'a MaybeRefValue = Plain 'a | Cell "'a option" | Bare

record SlidevContextNav =
  nav_currentSlideNo :: "jsnum MaybeRefValue option"
  nav_clicks :: "jsnum MaybeRefValue option"
  nav_clicksTotal :: "jsnum MaybeRefValue option"
  nav_hasNext :: "bool MaybeRefValue option"
  nav_next :: "(exn + unit) option"

record SlidevContext =
  nav :: "SlidevContextNav option"

text \<open>A member function of the bridge is given by what a call of it answers.\<close>

record SlidevExportBridge =
  bridge_getStepInfo :: "Mp4StepInfo option"
  bridge_nextStep :: "(exn + unit) option"

record window =
  slidev_export :: "SlidevExportBridge option"
  slidev :: "SlidevContext option"

definition number_of :: "jsnum MaybeRefValue option \<Rightarrow> jsnum" where
  \<comment> \<open>\<open>(typeof x === 'object' && x && 'value' in x) ? Number(x.value ?? 0) : Number(x ?? 0)\<close>\<close>
  "number_of x =
     (case x of
        None \<Rightarrow> Fin 0
      | Some (Plain v) \<Rightarrow> v
      | Some (Cell None) \<Rightarrow> Fin 0
      | Some (Cell (Some v)) \<Rightarrow> v
      | Some Bare \<Rightarrow> NaN)"

definition boolean_of :: "bool MaybeRefValue option \<Rightarrow> bool" where
  \<comment> \<open>\<open>(typeof x === 'object' && x && 'value' in x) ? Boolean(x.value) : Boolean(x)\<close>\<close>
  "boolean_of x =
     (case x of
        None \<Rightarrow> False
      | Some (Plain b) \<Rightarrow> b
      | Some (Cell None) \<Rightarrow> False
      | Some (Cell (Some b)) \<Rightarrow> b
      | Some Bare \<Rightarrow> True)"

definition window_nav :: "window \<Rightarrow> SlidevContextNav option" where
  \<comment> \<open>\<open>window.__slidev__?.nav\<close>\<close>
  "window_nav w = (case slidev w of None \<Rightarrow> None | Some ctx \<Rightarrow> nav ctx)"

definition nav_field :: "(SlidevContextNav \<Rightarrow> 'a option) \<Rightarrow> window \<Rightarrow> 'a option" where
  \<comment> \<open>\<open>nav?.field\<close>\<close>
  "nav_field f w = (case window_nav w of None \<Rightarrow> None | Some n \<Rightarrow> f n)"

text \<open>The function that \<open>getStepInfo\<close> evaluates in the page.\<close>

definition getStepInfo_page :: "window \<Rightarrow> Mp4StepInfo" where
  "getStepInfo_page w =
     (case (case slidev_export w of None \<Rightarrow> None | Some b \<Rightarrow> bridge_getStepInfo b) of
        Some info \<Rightarrow> info
      | None \<Rightarrow>
          \<lparr>no = number_of (nav_field nav_currentSlideNo w),
           clicks = number_of (nav_field nav_clicks w),
           clicksTotal = number_of (nav_field nav_clicksTotal w),
           hasNext = boolean_of (nav_field nav_hasNext w)\<rparr>)"

text \<open>The function that \<open>nextStep\<close> evaluates in the page.\<close>

definition nextStep_page :: "window \<Rightarrow> exn + bool" where
  "nextStep_page w =
     (case (case slidev_export w of None \<Rightarrow> None | Some b \<Rightarrow> bridge_nextStep b) of
        Some (Inl x) \<Rightarrow> Inl x
      | Some (Inr _) \<Rightarrow> Inr True
      | None \<Rightarrow>
          (case nav_field nav_next w of
             Some (Inl x) \<Rightarrow> Inl x
           | Some (Inr _) \<Rightarrow> Inr True
           | None \<Rightarrow> Inr False))"

section \<open>The MP4 recorder\<close>

text \<open>
  What the recorder does to the world, in order: a screenshot taken, a buffer written to
  the encoder's standard input, that input closed, a timer set, a call into the page, a
  process spawned.
\<close>

type_synonym buffer = nat

datatype event =
    Shot buffer
  | Write buffer
  | End
  | Sleep jsnum
  | WaitForFunction jsnum
  | NextStep
  | Probe
  | Navigate int
  | Spawn "string list"

datatype write_result = Accepted | Drained | DrainFailed exn

text \<open>
  What the world answers. The browser, the encoder and the language runtime are not part
  of the repository: the \<open>k\<close>-th call of each kind gets the \<open>k\<close>-th answer.
\<close>

record env =
  number_parseFloat :: "string \<Rightarrow> jsnum"
  number_toString :: "jsnum \<Rightarrow> string"
  screenshot :: "nat \<Rightarrow> exn + buffer"
  stdin_write :: "nat \<Rightarrow> write_result"
  page_at_getStepInfo :: "nat \<Rightarrow> exn + window"
  page_at_nextStep :: "nat \<Rightarrow> exn + window"
  transition_duration :: "nat \<Rightarrow> exn + string"
  animation_frames :: "nat \<Rightarrow> exn + unit"
  ffmpegDone :: "exn + unit"
  ffmpeg_version_ok :: bool
  navigation :: "exn + unit"
  motion_applied :: "exn + unit"
  target_ready :: "exn + unit"
  clip_measured :: "exn + unit"
  browser_launch :: "exn + int list"

text \<open>
  The recorder's state: the readings \<open>Date.now()\<close> has yet to give, how many calls of each
  kind were made, \<open>writtenFrames\<close>, and the events so far, oldest first.
\<close>

record rstate =
  clock :: "int list"
  shots_taken :: nat
  writes_done :: nat
  infos_read :: nat
  nexts_done :: nat
  budgets_read :: nat
  settles_done :: nat
  writtenFrames :: nat
  trace :: "event list"

text \<open>A call returns a value, throws, or never returns because the clock has no reading left.\<close>

datatype 'a res = Ok 'a rstate | Throw exn rstate | Stuck

definition then_do :: "'a res \<Rightarrow> ('a \<Rightarrow> rstate \<Rightarrow> 'b res) \<Rightarrow> 'b res" where
  "then_do r f = (case r of Ok a s \<Rightarrow> f a s | Throw x s \<Rightarrow> Throw x s | Stuck \<Rightarrow> Stuck)"

lemma then_do_cong [fundef_cong]:
  "r = r' \<Longrightarrow> (\<And>a s. r' = Ok a s \<Longrightarrow> f a s = f' a s) \<Longrightarrow> then_do r f = then_do r' f'"
  by (auto simp: then_do_def split: res.splits)

definition clock_left :: "'a res \<Rightarrow> nat" where
  "clock_left r = (case r of Ok _ s \<Rightarrow> length (clock s) | Throw _ s \<Rightarrow> length (clock s) | Stuck \<Rightarrow> 0)"

record capture_cfg =
  videoFps :: int
  videoInterval :: int
  playbackSpeedup :: rat
  timeout :: jsnum
  endSlideNo :: int
  startedAt :: int

definition date_now :: "rstate \<Rightarrow> int res" where
  "date_now s = (case clock s of [] \<Rightarrow> Stuck | t # ts \<Rightarrow> Ok t (s\<lparr>clock := ts\<rparr>))"

definition emit :: "event \<Rightarrow> rstate \<Rightarrow> rstate" where
  "emit ev s = s\<lparr>trace := trace s @ [ev]\<rparr>"

definition sleep :: "jsnum \<Rightarrow> rstate \<Rightarrow> rstate" where
  \<comment> \<open>\<open>if (ms <= 0) return Promise.resolve()\<close>, else a timer\<close>
  "sleep ms s = (if js_le ms (Fin 0) then s else emit (Sleep ms) s)"

definition getStepKey :: "env \<Rightarrow> Mp4StepInfo \<Rightarrow> string" where
  "getStepKey e step = number_toString e (no step) @ ''-'' @ number_toString e (clicks step)"

definition getStepInfo :: "env \<Rightarrow> rstate \<Rightarrow> Mp4StepInfo res" where
  "getStepInfo e s =
     (case page_at_getStepInfo e (infos_read s) of
        Inl x \<Rightarrow> Throw x (s\<lparr>infos_read := infos_read s + 1\<rparr>)
      | Inr w \<Rightarrow> Ok (getStepInfo_page w) (s\<lparr>infos_read := infos_read s + 1\<rparr>))"

definition nextStep :: "env \<Rightarrow> rstate \<Rightarrow> bool res" where
  "nextStep e s =
     (case page_at_nextStep e (nexts_done s) of
        Inl x \<Rightarrow> Throw x (emit NextStep (s\<lparr>nexts_done := nexts_done s + 1\<rparr>))
      | Inr w \<Rightarrow>
          (case nextStep_page w of
             Inl x \<Rightarrow> Throw x (emit NextStep (s\<lparr>nexts_done := nexts_done s + 1\<rparr>))
           | Inr advanced \<Rightarrow> Ok advanced (emit NextStep (s\<lparr>nexts_done := nexts_done s + 1\<rparr>))))"

definition settleBudget :: "env \<Rightarrow> rstate \<Rightarrow> jsnum res" where
  \<comment> \<open>\<open>getTransitionSettleBudget()\<close> against the page\<close>
  "settleBudget e s =
     (case transition_duration e (budgets_read s) of
        Inl x \<Rightarrow> Throw x (s\<lparr>budgets_read := budgets_read s + 1\<rparr>)
      | Inr raw \<Rightarrow>
          Ok (getTransitionSettleBudget (number_parseFloat e) raw)
            (s\<lparr>budgets_read := budgets_read s + 1\<rparr>))"

text \<open>\<open>waitForStepSettled()\<close>, always called with its default timeout of 10000. A failure
  of \<open>waitForFunction\<close> is caught and dropped.\<close>

definition waitForStepSettled :: "env \<Rightarrow> rstate \<Rightarrow> unit res" where
  "waitForStepSettled e s =
     then_do (settleBudget e s) (\<lambda>budget s1.
       (case animation_frames e (settles_done s1) of
          Inl x \<Rightarrow>
            Throw x (emit (WaitForFunction (js_min (Fin 10000) (js_add budget (Fin 2000))))
              (sleep budget (s1\<lparr>settles_done := settles_done s1 + 1\<rparr>)))
        | Inr _ \<Rightarrow>
            Ok () (emit (WaitForFunction (js_min (Fin 10000) (js_add budget (Fin 2000))))
              (sleep budget (s1\<lparr>settles_done := settles_done s1 + 1\<rparr>)))))"

definition writeFrame :: "env \<Rightarrow> buffer \<Rightarrow> rstate \<Rightarrow> unit res" where
  "writeFrame e buf s =
     (case stdin_write e (writes_done s) of
        Accepted \<Rightarrow> Ok () (emit (Write buf) (s\<lparr>writes_done := writes_done s + 1\<rparr>))
      | Drained \<Rightarrow> Ok () (emit (Write buf) (s\<lparr>writes_done := writes_done s + 1\<rparr>))
      | DrainFailed x \<Rightarrow> Throw x (emit (Write buf) (s\<lparr>writes_done := writes_done s + 1\<rparr>)))"

definition captureFrame :: "env \<Rightarrow> rstate \<Rightarrow> buffer res" where
  "captureFrame e s =
     (case screenshot e (shots_taken s) of
        Inl x \<Rightarrow> Throw x (s\<lparr>shots_taken := shots_taken s + 1\<rparr>)
      | Inr b \<Rightarrow> Ok b (emit (Shot b) (s\<lparr>shots_taken := shots_taken s + 1\<rparr>)))"

lemma writeFrame_keeps:
  "writeFrame e buf s = Ok u s1 \<Longrightarrow> writtenFrames s1 = writtenFrames s \<and> clock s1 = clock s"
  by (auto simp: writeFrame_def emit_def split: write_result.splits)

text \<open>The loop of \<open>catchUpFrames\<close>.\<close>

function catchUpLoop :: "env \<Rightarrow> buffer \<Rightarrow> int \<Rightarrow> rstate \<Rightarrow> unit res" where
  "catchUpLoop e buf expectedFrames s =
     (if int (writtenFrames s) < expectedFrames
      then then_do (writeFrame e buf s) (\<lambda>_ s1.
             catchUpLoop e buf expectedFrames (s1\<lparr>writtenFrames := writtenFrames s1 + 1\<rparr>))
      else Ok () s)"
  by pat_completeness auto
termination
  by (relation "measure (\<lambda>(e, buf, expectedFrames, s). nat (expectedFrames - int (writtenFrames s)))")
    (auto dest: writeFrame_keeps)

declare catchUpLoop.simps [simp del]

definition catchUpFrames :: "env \<Rightarrow> capture_cfg \<Rightarrow> buffer \<Rightarrow> rstate \<Rightarrow> unit res" where
  "catchUpFrames e c buf s =
     then_do (date_now s) (\<lambda>now s1.
       catchUpLoop e buf (max 1 \<lfloor>of_int ((now - startedAt c) * videoFps c) / (1000 :: rat)\<rfloor>) s1)"

text \<open>The three statements that follow each screenshot: \<open>writeFrame(frame)\<close>,
  \<open>writtenFrames += 1\<close>, \<open>catchUpFrames(frame)\<close>.\<close>

definition write_counted :: "env \<Rightarrow> capture_cfg \<Rightarrow> buffer \<Rightarrow> rstate \<Rightarrow> unit res" where
  "write_counted e c frame s =
     then_do (writeFrame e frame s) (\<lambda>_ s1.
       catchUpFrames e c frame (s1\<lparr>writtenFrames := writtenFrames s1 + 1\<rparr>))"

definition frameInterval :: "capture_cfg \<Rightarrow> rat" where
  "frameInterval c = 1000 / of_int (videoFps c)"

definition captureAndWriteFrame :: "env \<Rightarrow> capture_cfg \<Rightarrow> rstate \<Rightarrow> buffer res" where
  "captureAndWriteFrame e c s =
     then_do (captureFrame e s) (\<lambda>frame s1.
       then_do (write_counted e c frame s1) (\<lambda>_ s2.
         then_do (date_now s2) (\<lambda>now s3.
           Ok frame
             (if of_nat (writtenFrames s3 + 1) * frameInterval c - of_int (now - startedAt c) > 0
              then sleep
                (Fin (of_nat (writtenFrames s3 + 1) * frameInterval c - of_int (now - startedAt c))) s3
              else s3))))"

text \<open>No call gives readings back to the clock: what the loops below need to end.\<close>

lemma then_do_Ok:
  "then_do r f = Ok b s' \<Longrightarrow> \<exists>a s1. r = Ok a s1 \<and> f a s1 = Ok b s'"
  by (auto simp: then_do_def split: res.splits)

lemma date_now_clock: "date_now s = Ok t s1 \<Longrightarrow> length (clock s1) < length (clock s)"
  by (auto simp: date_now_def split: list.splits)

lemma catchUpLoop_clock: "catchUpLoop e buf n s = Ok u s' \<Longrightarrow> clock s' = clock s"
proof (induction e buf n s rule: catchUpLoop.induct)
  case (1 e buf n s)
  show ?case
  proof (cases "int (writtenFrames s) < n")
    case True
    then obtain v s1 where w: "writeFrame e buf s = Ok v s1"
      and r: "catchUpLoop e buf n (s1\<lparr>writtenFrames := writtenFrames s1 + 1\<rparr>) = Ok u s'"
      using "1.prems" by (subst (asm) catchUpLoop.simps) (auto dest: then_do_Ok)
    from 1(1) [OF True w r] writeFrame_keeps [OF w] show ?thesis by simp
  next
    case False
    then show ?thesis using "1.prems" by (subst (asm) catchUpLoop.simps) simp
  qed
qed

lemma write_counted_clock:
  assumes "write_counted e c frame s = Ok u s'"
  shows "length (clock s') < length (clock s)"
proof -
  from assms obtain v s1 now s2 where w: "writeFrame e frame s = Ok v s1"
    and n: "date_now (s1\<lparr>writtenFrames := writtenFrames s1 + 1\<rparr>) = Ok now s2"
    and l: "catchUpLoop e frame
      (max 1 \<lfloor>of_int ((now - startedAt c) * videoFps c) / (1000 :: rat)\<rfloor>) s2 = Ok u s'"
    unfolding write_counted_def catchUpFrames_def by (auto dest!: then_do_Ok)
  from writeFrame_keeps [OF w] date_now_clock [OF n] catchUpLoop_clock [OF l]
  show ?thesis by simp
qed

lemma captureFrame_clock: "captureFrame e s = Ok b s' \<Longrightarrow> clock s' = clock s"
  by (auto simp: captureFrame_def emit_def split: sum.splits)

lemma sleep_clock: "clock (sleep ms s) = clock s"
  by (simp add: sleep_def emit_def)

lemma captureAndWriteFrame_clock:
  assumes "captureAndWriteFrame e c s = Ok b s'"
  shows "length (clock s') < length (clock s)"
proof -
  from assms obtain frame s1 v s2 now s3 where f: "captureFrame e s = Ok frame s1"
    and w: "write_counted e c frame s1 = Ok v s2"
    and n: "date_now s2 = Ok now s3"
    and r: "clock s' = clock s3"
    unfolding captureAndWriteFrame_def
    by (auto dest!: then_do_Ok simp: sleep_clock split: if_splits)
  from captureFrame_clock [OF f] write_counted_clock [OF w] date_now_clock [OF n] r
  show ?thesis by simp
qed

text \<open>The loop of \<open>captureForDuration\<close>.\<close>

function captureUntil :: "env \<Rightarrow> capture_cfg \<Rightarrow> jsnum \<Rightarrow> rstate \<Rightarrow> unit res" where
  "captureUntil e c deadline s =
     then_do (date_now s) (\<lambda>now s1.
       if js_lt (Fin (of_int now)) deadline
       then then_do (captureAndWriteFrame e c s1) (\<lambda>_ s2. captureUntil e c deadline s2)
       else Ok () s1)"
  by pat_completeness auto
termination
proof (relation "measure (\<lambda>(e, c, deadline, s). length (clock s))")
  show "wf (measure (\<lambda>(e, c, deadline, s). length (clock s)))" by simp
next
  fix e c deadline s now s1 b s2
  assume "date_now s = Ok now s1" "captureAndWriteFrame e c s1 = Ok b s2"
  then show "((e, c, deadline, s2), (e, c, deadline, s))
      \<in> measure (\<lambda>(e, c, deadline, s). length (clock s))"
    using date_now_clock captureAndWriteFrame_clock by fastforce
qed

declare captureUntil.simps [simp del]

definition captureForDuration :: "env \<Rightarrow> capture_cfg \<Rightarrow> jsnum \<Rightarrow> rstate \<Rightarrow> unit res" where
  "captureForDuration e c durationMs s =
     (if js_le durationMs (Fin 0) then Ok () s
      else then_do (date_now s) (\<lambda>now s1.
             captureUntil e c (js_add (Fin (of_int now)) durationMs) s1))"

lemma captureUntil_clock:
  "captureUntil e c deadline s = Ok u s' \<Longrightarrow> length (clock s') < length (clock s)"
proof (induction e c deadline s rule: captureUntil.induct)
  case (1 e c deadline s)
  from "1.prems" obtain now s1 where n: "date_now s = Ok now s1"
    and body: "(if js_lt (Fin (of_int now)) deadline
       then then_do (captureAndWriteFrame e c s1) (\<lambda>_ s2. captureUntil e c deadline s2)
       else Ok () s1) = Ok u s'"
    by (subst (asm) captureUntil.simps) (auto dest: then_do_Ok)
  show ?case
  proof (cases "js_lt (Fin (of_int now)) deadline")
    case True
    then obtain b s2 where f: "captureAndWriteFrame e c s1 = Ok b s2"
      and r: "captureUntil e c deadline s2 = Ok u s'"
      using body by (auto dest: then_do_Ok)
    from 1(1) [OF n True f r] captureAndWriteFrame_clock [OF f] date_now_clock [OF n]
    show ?thesis by simp
  next
    case False
    then show ?thesis using body date_now_clock [OF n] by simp
  qed
qed

lemma captureForDuration_clock:
  assumes "captureForDuration e c d s = Ok u s'"
  shows "length (clock s') \<le> length (clock s)"
proof (cases "js_le d (Fin 0)")
  case True
  then show ?thesis using assms by (simp add: captureForDuration_def)
next
  case False
  then obtain now s1 where n: "date_now s = Ok now s1"
    and l: "captureUntil e c (js_add (Fin (of_int now)) d) s1 = Ok u s'"
    using assms unfolding captureForDuration_def by (auto dest!: then_do_Ok)
  from date_now_clock [OF n] captureUntil_clock [OF l] show ?thesis by simp
qed

lemma getStepInfo_clock: "getStepInfo e s = Ok i s' \<Longrightarrow> clock s' = clock s"
  by (auto simp: getStepInfo_def split: sum.splits)

lemma nextStep_clock: "nextStep e s = Ok a s' \<Longrightarrow> clock s' = clock s"
  by (auto simp: nextStep_def emit_def split: sum.splits)

lemma settleBudget_clock: "settleBudget e s = Ok b s' \<Longrightarrow> clock s' = clock s"
  by (auto simp: settleBudget_def split: sum.splits)

lemma waitForStepSettled_clock:
  assumes "waitForStepSettled e s = Ok u s'"
  shows "clock s' = clock s"
proof -
  from assms obtain b s1 where b: "settleBudget e s = Ok b s1"
    and r: "clock s' = clock s1"
    unfolding waitForStepSettled_def
    by (auto dest!: then_do_Ok simp: emit_def sleep_clock split: sum.splits)
  from settleBudget_clock [OF b] r show ?thesis by simp
qed

text \<open>The transition wait: the loop that follows \<open>nextStep()\<close>. It answers \<open>changed\<close>.\<close>

function transitionWait :: "env \<Rightarrow> capture_cfg \<Rightarrow> string \<Rightarrow> jsnum \<Rightarrow> rstate \<Rightarrow> bool res" where
  "transitionWait e c previousStamp transitionDeadline s =
     then_do (date_now s) (\<lambda>now s1.
       if js_lt (Fin (of_int now)) transitionDeadline
       then then_do (captureAndWriteFrame e c s1) (\<lambda>_ s2.
              then_do (getStepInfo e s2) (\<lambda>current s3.
                if getStepKey e current \<noteq> previousStamp then Ok True s3
                else transitionWait e c previousStamp transitionDeadline s3))
       else Ok False s1)"
  by pat_completeness auto
termination
proof (relation "measure (\<lambda>(e, c, previousStamp, transitionDeadline, s). length (clock s))")
  show "wf (measure (\<lambda>(e, c, previousStamp, transitionDeadline, s). length (clock s)))"
    by simp
next
  fix e c previousStamp transitionDeadline s now s1 b s2 cur s3
  assume "date_now s = Ok now s1" "captureAndWriteFrame e c s1 = Ok b s2"
    "getStepInfo e s2 = Ok cur s3"
  then show "((e, c, previousStamp, transitionDeadline, s3), (e, c, previousStamp, transitionDeadline, s))
      \<in> measure (\<lambda>(e, c, previousStamp, transitionDeadline, s). length (clock s))"
    using date_now_clock captureAndWriteFrame_clock getStepInfo_clock by fastforce
qed

declare transitionWait.simps [simp del]

lemma transitionWait_clock:
  "transitionWait e c k d s = Ok b s' \<Longrightarrow> length (clock s') < length (clock s)"
proof (induction e c k d s rule: transitionWait.induct)
  case (1 e c k d s)
  from "1.prems" obtain now s1 where n: "date_now s = Ok now s1"
    and body: "(if js_lt (Fin (of_int now)) d
       then then_do (captureAndWriteFrame e c s1) (\<lambda>_ s2.
              then_do (getStepInfo e s2) (\<lambda>current s3.
                if getStepKey e current \<noteq> k then Ok True s3
                else transitionWait e c k d s3))
       else Ok False s1) = Ok b s'"
    by (subst (asm) transitionWait.simps) (auto dest: then_do_Ok)
  show ?case
  proof (cases "js_lt (Fin (of_int now)) d")
    case True
    then obtain f s2 cur s3 where f: "captureAndWriteFrame e c s1 = Ok f s2"
      and g: "getStepInfo e s2 = Ok cur s3"
      and r: "(if getStepKey e cur \<noteq> k then Ok True s3 else transitionWait e c k d s3) = Ok b s'"
      using body by (auto dest!: then_do_Ok)
    have le: "length (clock s3) < length (clock s)"
      using captureAndWriteFrame_clock [OF f] getStepInfo_clock [OF g] date_now_clock [OF n]
      by simp
    show ?thesis
    proof (cases "getStepKey e cur \<noteq> k")
      case True
      then show ?thesis using r le by simp
    next
      case False
      then have "transitionWait e c k d s3 = Ok b s'" using r by simp
      from 1(1) [OF n True f g _ this] False le show ?thesis by simp
    qed
  next
    case False
    then show ?thesis using body date_now_clock [OF n] by auto
  qed
qed

text \<open>From saving the step key to the capture of the transition's tail.\<close>

definition advanceStep :: "env \<Rightarrow> capture_cfg \<Rightarrow> Mp4StepInfo \<Rightarrow> rstate \<Rightarrow> unit res" where
  "advanceStep e c step s =
     then_do (nextStep e s) (\<lambda>advanced s1.
       if \<not> advanced
       then Throw (Error ''[slidev] Failed to trigger next step in browser context.'') s1
       else then_do (date_now s1) (\<lambda>now s2.
         then_do (transitionWait e c (getStepKey e step)
             (js_add (Fin (of_int now)) (js_min (Fin 10000) (js_max (Fin 2000) (timeout c)))) s2)
           (\<lambda>changed s3.
             if \<not> changed
             then Throw (Error (''[slidev] Failed to advance from step '' @ getStepKey e step)) s3
             else then_do (settleBudget e s3) (\<lambda>transitionBudget s4.
                    captureForDuration e c transitionBudget s4))))"

lemma advanceStep_clock:
  assumes "advanceStep e c step s = Ok u s'"
  shows "length (clock s') < length (clock s)"
proof -
  from assms obtain a s1 now s2 ch s3 b s4 where x: "nextStep e s = Ok a s1"
    and n: "date_now s1 = Ok now s2"
    and t: "transitionWait e c (getStepKey e step)
      (js_add (Fin (of_int now)) (js_min (Fin 10000) (js_max (Fin 2000) (timeout c)))) s2 = Ok ch s3"
    and b: "settleBudget e s3 = Ok b s4"
    and d: "captureForDuration e c b s4 = Ok u s'"
    unfolding advanceStep_def by (auto dest!: then_do_Ok split: if_splits)
  from nextStep_clock [OF x] date_now_clock [OF n] transitionWait_clock [OF t]
    settleBudget_clock [OF b] captureForDuration_clock [OF d]
  show ?thesis by simp
qed

definition js_eq :: "jsnum \<Rightarrow> jsnum \<Rightarrow> bool" where
  \<comment> \<open>\<open>===\<close> on numbers\<close>
  "js_eq a b = (a \<noteq> NaN \<and> a = b)"

definition canAdvanceInRange :: "capture_cfg \<Rightarrow> Mp4StepInfo \<Rightarrow> bool" where
  "canAdvanceInRange c step =
     (js_lt (no step) (Fin (of_int (endSlideNo c)))
      \<or> (js_eq (no step) (Fin (of_int (endSlideNo c))) \<and> js_lt (clicks step) (clicksTotal step)))"

text \<open>The \<open>while (true)\<close> loop of the capture.\<close>

function mainLoop :: "env \<Rightarrow> capture_cfg \<Rightarrow> rstate \<Rightarrow> unit res" where
  "mainLoop e c s =
     then_do (waitForStepSettled e s) (\<lambda>_ s1.
       then_do (captureForDuration e c
           (Fin (of_int (videoInterval c) * playbackSpeedup c)) s1) (\<lambda>_ s2.
         then_do (getStepInfo e s2) (\<lambda>step s3.
           if \<not> hasNext step \<or> \<not> canAdvanceInRange c step then Ok () s3
           else then_do (advanceStep e c step s3) (\<lambda>_ s4. mainLoop e c s4))))"
  by pat_completeness auto
termination
proof (relation "measure (\<lambda>(e, c, s). length (clock s))")
  show "wf (measure (\<lambda>(e, c, s). length (clock s)))" by simp
next
  fix e c s u s1 v s2 step s3 w s4
  assume "waitForStepSettled e s = Ok u s1"
    "captureForDuration e c (Fin (of_int (videoInterval c) * playbackSpeedup c)) s1 = Ok v s2"
    "getStepInfo e s2 = Ok step s3" "advanceStep e c step s3 = Ok w s4"
  then show "((e, c, s4), (e, c, s)) \<in> measure (\<lambda>(e, c, s). length (clock s))"
    using waitForStepSettled_clock captureForDuration_clock getStepInfo_clock advanceStep_clock
    by fastforce
qed

declare mainLoop.simps [simp del]

text \<open>The body of the \<open>try\<close> block.\<close>

definition captureAll :: "env \<Rightarrow> capture_cfg \<Rightarrow> rstate \<Rightarrow> unit res" where
  "captureAll e c s =
     then_do (captureFrame e s) (\<lambda>initialFrame s1.
       then_do (write_counted e c initialFrame s1) (\<lambda>_ s2.
         then_do (mainLoop e c s2) (\<lambda>_ s3.
           then_do (captureFrame e s3) (\<lambda>lastFrame s4.
             then_do (write_counted e c lastFrame s4) (\<lambda>_ s5.
               (case ffmpegDone e of
                  Inl x \<Rightarrow> Throw x (emit End s5)
                | Inr _ \<Rightarrow> Ok () (emit End s5)))))))"

text \<open>The \<open>try\<close> block with its \<open>catch\<close> and the statement after it: a caught error
  closes the encoder's input, waits for the encoder and is thrown again.\<close>

definition capture :: "env \<Rightarrow> capture_cfg \<Rightarrow> rstate \<Rightarrow> unit res" where
  "capture e c s =
     (case captureAll e c s of
        Ok u s' \<Rightarrow> Ok u s'
      | Throw captureError s' \<Rightarrow> Throw captureError (emit End s')
      | Stuck \<Rightarrow> Stuck)"

text \<open>The claim's words for the frame schedule.\<close>

definition expectedFrames :: "capture_cfg \<Rightarrow> int \<Rightarrow> int" where
  \<comment> \<open>\<open>max(1, floor((now - startedAt) * fps / 1000))\<close>\<close>
  "expectedFrames c now =
     max 1 \<lfloor>of_int (now - startedAt c) * of_int (videoFps c) / (1000 :: rat)\<rfloor>"

definition duplicates :: "capture_cfg \<Rightarrow> rstate \<Rightarrow> int \<Rightarrow> nat" where
  \<comment> \<open>how many copies of a frame, written once already, bring the counter to the expected number\<close>
  "duplicates c s now = nat (expectedFrames c now - (int (writtenFrames s) + 1))"

definition pacing_sleep :: "capture_cfg \<Rightarrow> nat \<Rightarrow> int \<Rightarrow> rat" where
  \<comment> \<open>\<open>max(0, (writtenFrames + 1) * (1000 / fps) - elapsedSinceStart)\<close>\<close>
  "pacing_sleep c written now =
     max 0 (of_nat (written + 1) * (1000 / of_int (videoFps c)) - of_int (now - startedAt c))"

definition slept :: "rat \<Rightarrow> event list" where
  \<comment> \<open>sleeping for 0 ms sets no timer\<close>
  "slept ms = (if ms > 0 then [Sleep (Fin ms)] else [])"









definition clock_passes :: "jsnum \<Rightarrow> int list \<Rightarrow> bool" where
  \<comment> \<open>time goes on until the deadline has passed: the clock has readings left, and its last
     three (a pass of a capture loop takes three) are not before the deadline\<close>
  "clock_passes d readings =
     (3 \<le> length readings
      \<and> list_all (\<lambda>t. \<not> js_lt (Fin (of_int t)) d) (drop (length readings - 3) readings))"

section \<open>The MP4 export: checks and setup\<close>

text \<open>An optional argument that is a number or a string.\<close>

datatype js_arg = Undefined | Num jsnum | Str string

definition quoted :: "string \<Rightarrow> string" where
  \<comment> \<open>the string between double quotes\<close>
  "quoted v = [CHR 0x22] @ v @ [CHR 0x22]"

definition template :: "env \<Rightarrow> js_arg \<Rightarrow> string" where
  \<comment> \<open>the argument inside a template literal\<close>
  "template e v = (case v of Undefined \<Rightarrow> ''undefined'' | Num n \<Rightarrow> number_toString e n | Str s \<Rightarrow> s)"

definition parseVideoMotionScale :: "env \<Rightarrow> js_arg \<Rightarrow> exn + jsnum" where
  "parseVideoMotionScale e v =
     (case v of
        Undefined \<Rightarrow> Inr (Fin 1)
      | _ \<Rightarrow>
        (if \<not> js_isFinite (case v of Num n \<Rightarrow> n | Str s \<Rightarrow> number_parseFloat e s | Undefined \<Rightarrow> NaN)
            \<or> js_le (case v of Num n \<Rightarrow> n | Str s \<Rightarrow> number_parseFloat e s | Undefined \<Rightarrow> NaN) (Fin 0)
         then Inl (Error (''[slidev] Invalid --video-motion-scale '' @ quoted (template e v)
                @ ''. Expected a number greater than 0.''))
         else Inr (case v of Num n \<Rightarrow> n | Str s \<Rightarrow> number_parseFloat e s | Undefined \<Rightarrow> NaN)))"

text \<open>The options of \<open>exportSlides\<close> that the MP4 export reads, after their defaults.\<close>

record ExportOptions =
  opt_withClicks :: bool
  opt_timeout :: jsnum
  opt_output :: string
  opt_videoInterval :: jsnum
  opt_videoFps :: jsnum
  opt_videoMotionScale :: js_arg

fun isContiguousRange :: "int list \<Rightarrow> bool" where
  \<comment> \<open>\<open>pages.every((value, index) => index === 0 || value === pages[index - 1] + 1)\<close>\<close>
  "isContiguousRange (a # b # rest) = (b = a + 1 \<and> isContiguousRange (b # rest))"
| "isContiguousRange _ = True"

definition startSlide :: "int list \<Rightarrow> int" where
  \<comment> \<open>\<open>pages[0] ?? 1\<close>\<close>
  "startSlide pages = (case pages of [] \<Rightarrow> 1 | p # _ \<Rightarrow> p)"

definition endSlide :: "int list \<Rightarrow> int" where
  \<comment> \<open>\<open>pages[pages.length - 1] ?? startSlideNo\<close>\<close>
  "endSlide pages = (if pages = [] then startSlide pages else last pages)"

definition the_fin :: "jsnum \<Rightarrow> rat" where
  \<comment> \<open>the value of a number known to be finite\<close>
  "the_fin x = (case x of Fin r \<Rightarrow> r | _ \<Rightarrow> 0)"

definition speedup :: "jsnum \<Rightarrow> jsnum" where
  \<comment> \<open>\<open>motionScale > 1 ? motionScale : 1\<close>\<close>
  "speedup motionScale = (if js_lt (Fin 1) motionScale then motionScale else Fin 1)"

definition mp4_output :: "string \<Rightarrow> string" where
  "mp4_output out = (if endsWith out ''.mp4'' then out else out @ ''.mp4'')"

definition ffmpegArgs :: "env \<Rightarrow> ExportOptions \<Rightarrow> jsnum \<Rightarrow> string list" where
  "ffmpegArgs e opts sp =
     [''-y'', ''-f'', ''image2pipe'', ''-framerate'', number_toString e (opt_videoFps opts),
      ''-vcodec'', ''png'', ''-i'', ''-'', ''-an'', ''-c:v'', ''libx264'', ''-preset'', ''veryfast'']
     @ (if js_lt (Fin 1) sp
        then [''-vf'', ''setpts=PTS/'' @ number_toString e sp, ''-r'',
              number_toString e (opt_videoFps opts)]
        else [])
     @ [''-pix_fmt'', ''yuv420p'', ''-movflags'', ''+faststart'', mp4_output (opt_output opts)]"

definition waitForFfmpeg :: "env \<Rightarrow> rstate \<Rightarrow> unit res" where
  "waitForFfmpeg e s =
     (if ffmpeg_version_ok e then Ok () (emit Probe s)
      else Throw (Error ''[slidev] MP4 export requires ffmpeg. Please install ffmpeg and try again.'')
             (emit Probe s))"

definition goPlay :: "env \<Rightarrow> int \<Rightarrow> rstate \<Rightarrow> unit res" where
  "goPlay e slideNo s =
     (case navigation e of
        Inl x \<Rightarrow> Throw x (emit (Navigate slideNo) s)
      | Inr _ \<Rightarrow> waitForStepSettled e (emit (Navigate slideNo) s))"

definition settle :: "exn + unit \<Rightarrow> rstate \<Rightarrow> unit res" where
  \<comment> \<open>a call into the browser that answers nothing or throws\<close>
  "settle r s = (case r of Inl x \<Rightarrow> Throw x s | Inr _ \<Rightarrow> Ok () s)"

definition capture_config :: "ExportOptions \<Rightarrow> jsnum \<Rightarrow> int list \<Rightarrow> int \<Rightarrow> capture_cfg" where
  "capture_config opts motionScale pages now =
     \<lparr>videoFps = \<lfloor>the_fin (opt_videoFps opts)\<rfloor>,
      videoInterval = \<lfloor>the_fin (opt_videoInterval opts)\<rfloor>,
      playbackSpeedup = the_fin (speedup motionScale),
      timeout = opt_timeout opts,
      endSlideNo = endSlide pages,
      startedAt = now\<rparr>"

text \<open>
  \<open>genPageMp4\<close>. The encoder is spawned before \<open>target.waitFor()\<close> and the measuring of
  the clip, and both stand before the \<open>try\<close> block.
\<close>

definition genPageMp4 :: "env \<Rightarrow> ExportOptions \<Rightarrow> int list \<Rightarrow> rstate \<Rightarrow> unit res" where
  "genPageMp4 e opts pages s =
     (if \<not> opt_withClicks opts
      then Throw (Error
        ''[slidev] MP4 export always includes clicks. Remove --with-clicks=false to continue.'') s
      else if \<not> js_isInteger (opt_videoFps opts) \<or> js_lt (opt_videoFps opts) (Fin 1)
          \<or> js_lt (Fin 60) (opt_videoFps opts)
      then Throw (Error (''[slidev] Invalid video fps '' @ quoted (number_toString e (opt_videoFps opts))
        @ ''. Expected an integer between 1 and 60.'')) s
      else if \<not> js_isInteger (opt_videoInterval opts) \<or> js_lt (opt_videoInterval opts) (Fin 0)
      then Throw (Error (''[slidev] Invalid video interval ''
        @ quoted (number_toString e (opt_videoInterval opts)) @ ''. Expected a non-negative integer.'')) s
      else
        (case parseVideoMotionScale e (opt_videoMotionScale opts) of
           Inl x \<Rightarrow> Throw x s
         | Inr motionScale \<Rightarrow>
             if \<not> isContiguousRange pages
             then Throw (Error
               (''[slidev] MP4 export currently requires a contiguous --range (for example: ''
                 @ quoted ''1-5'' @ '').'')) s
             else
               then_do (waitForFfmpeg e s) (\<lambda>_ s1.
               then_do (goPlay e (startSlide pages) s1) (\<lambda>_ s2.
               then_do (if js_lt (Fin 1) motionScale then settle (motion_applied e) s2 else Ok () s2)
                 (\<lambda>_ s3.
               then_do (settle (target_ready e)
                   (emit (Spawn (ffmpegArgs e opts (speedup motionScale))) s3)) (\<lambda>_ s4.
               then_do (settle (clip_measured e) s4) (\<lambda>_ s5.
               then_do (date_now s5) (\<lambda>now s6.
                 capture e (capture_config opts motionScale pages now) s6))))))))"

text \<open>\<open>exportSlides\<close> for the format \<open>mp4\<close>: the range is parsed and the browser launched
  before \<open>genPageMp4\<close> runs.\<close>

definition exportSlides :: "env \<Rightarrow> ExportOptions \<Rightarrow> rstate \<Rightarrow> unit res" where
  "exportSlides e opts s =
     (case browser_launch e of
        Inl x \<Rightarrow> Throw x s
      | Inr pages \<Rightarrow> genPageMp4 e opts pages s)"

fun contains :: "string \<Rightarrow> string \<Rightarrow> bool" where
  \<comment> \<open>\<open>contains s part\<close>: \<open>part\<close> occurs in \<open>s\<close>\<close>
  "contains [] part = (part = [])"
| "contains (c # cs) part = (take (length part) (c # cs) = part \<or> contains cs part)"

definition closings :: "'a res \<Rightarrow> nat" where
  \<comment> \<open>how often the encoder's input was closed\<close>
  "closings r =
     (case r of Ok _ s \<Rightarrow> count_list (trace s) End | Throw _ s \<Rightarrow> count_list (trace s) End
      | Stuck \<Rightarrow> 0)"

definition spawned :: "'a res \<Rightarrow> bool" where
  \<comment> \<open>the encoder was spawned\<close>
  "spawned r =
     (case r of Ok _ s \<Rightarrow> list_ex (\<lambda>ev. case ev of Spawn _ \<Rightarrow> True | _ \<Rightarrow> False) (trace s)
      | Throw _ s \<Rightarrow> list_ex (\<lambda>ev. case ev of Spawn _ \<Rightarrow> True | _ \<Rightarrow> False) (trace s)
      | Stuck \<Rightarrow> False)"

section \<open>Example worlds\<close>

definition no_bridge_page :: window where
  "no_bridge_page = \<lparr>slidev_export = None, slidev = None\<rparr>"



definition show_number :: "jsnum \<Rightarrow> string" where
  \<comment> \<open>the digits of a non-negative whole number; enough for the examples\<close>
  "show_number x = (case x of Fin r \<Rightarrow> show_nat (nat \<lfloor>r\<rfloor>) | _ \<Rightarrow> ''NaN'')"

definition example_env :: "(nat \<Rightarrow> window) \<Rightarrow> env" where
  \<comment> \<open>every call succeeds; the page at the \<open>k\<close>-th reading of the step is \<open>page k\<close>\<close>
  "example_env page =
     \<lparr>number_parseFloat = (\<lambda>s. NaN), number_toString = show_number,
      screenshot = (\<lambda>k. Inr k), stdin_write = (\<lambda>k. Accepted),
      page_at_getStepInfo = (\<lambda>k. Inr (page k)), page_at_nextStep = (\<lambda>k. Inr (page k)),
      transition_duration = (\<lambda>k. Inr ''''), animation_frames = (\<lambda>k. Inr ()),
      ffmpegDone = Inr (), ffmpeg_version_ok = True, navigation = Inr (),
      motion_applied = Inr (), target_ready = Inr (), clip_measured = Inr (),
      browser_launch = Inr [1]\<rparr>"

definition example_cfg :: capture_cfg where
  "example_cfg =
     \<lparr>videoFps = 30, videoInterval = 100, playbackSpeedup = 1, timeout = Fin 30000,
      endSlideNo = 1, startedAt = 0\<rparr>"

definition example_opts :: ExportOptions where
  "example_opts =
     \<lparr>opt_withClicks = True, opt_timeout = Fin 30000, opt_output = ''slides'',
      opt_videoInterval = Fin 100, opt_videoFps = Fin 30, opt_videoMotionScale = Num (Fin 1)\<rparr>"

definition start :: "int list \<Rightarrow> rstate" where
  \<comment> \<open>nothing done yet; the clock will give these readings\<close>
  "start readings =
     \<lparr>clock = readings, shots_taken = 0, writes_done = 0, infos_read = 0, nexts_done = 0,
      budgets_read = 0, settles_done = 0, writtenFrames = 0, trace = []\<rparr>"

text \<open>The claims' words for the step bridge and for the checks of \<open>genPageMp4\<close>.\<close>

definition no_step_bridge :: "window \<Rightarrow> bool" where
  \<comment> \<open>no \<open>window.__slidev_export__\<close> with a \<open>getStepInfo\<close> function, no \<open>window.__slidev__.nav\<close>\<close>
  "no_step_bridge w =
     ((case slidev_export w of None \<Rightarrow> True | Some b \<Rightarrow> bridge_getStepInfo b = None)
      \<and> window_nav w = None)"

definition contiguous_message :: string where
  "contiguous_message =
     ''[slidev] MP4 export currently requires a contiguous --range (for example: ''
       @ quoted ''1-5'' @ '').''"

definition earlier_check_error :: "env \<Rightarrow> ExportOptions \<Rightarrow> exn option" where
  \<comment> \<open>the error of the first check that fails among those made before the range is looked at\<close>
  "earlier_check_error e opts =
     (if \<not> opt_withClicks opts
      then Some (Error
        ''[slidev] MP4 export always includes clicks. Remove --with-clicks=false to continue.'')
      else if \<not> (js_isInteger (opt_videoFps opts) \<and> js_le (Fin 1) (opt_videoFps opts)
          \<and> js_le (opt_videoFps opts) (Fin 60))
      then Some (Error (''[slidev] Invalid video fps '' @ quoted (number_toString e (opt_videoFps opts))
        @ ''. Expected an integer between 1 and 60.''))
      else if \<not> (js_isInteger (opt_videoInterval opts) \<and> js_le (Fin 0) (opt_videoInterval opts))
      then Some (Error (''[slidev] Invalid video interval ''
        @ quoted (number_toString e (opt_videoInterval opts)) @ ''. Expected a non-negative integer.''))
      else (case parseVideoMotionScale e (opt_videoMotionScale opts) of
              Inl x \<Rightarrow> Some x
            | Inr _ \<Rightarrow> None))"

section \<open>The order of the frames\<close>

text \<open>
  The claim's words for the order of the frames: every buffer written to the encoder is the
  buffer of the latest screenshot, so the frames reach the encoder in the order of their
  capture, a frame possibly several times.
\<close>

fun latest_shot :: "buffer option \<Rightarrow> event list \<Rightarrow> buffer option" where
  "latest_shot l [] = l"
| "latest_shot l (Shot b # evs) = latest_shot (Some b) evs"
| "latest_shot l (ev # evs) = latest_shot l evs"

fun in_capture_order :: "buffer option \<Rightarrow> event list \<Rightarrow> bool" where
  "in_capture_order l [] = True"
| "in_capture_order l (Shot b # evs) = in_capture_order (Some b) evs"
| "in_capture_order l (Write b # evs) = (l = Some b \<and> in_capture_order l evs)"
| "in_capture_order l (ev # evs) = in_capture_order l evs"

definition orderly :: "rstate \<Rightarrow> bool" where
  "orderly s = in_capture_order None (trace s)"

definition shown :: "rstate \<Rightarrow> buffer option" where
  \<comment> \<open>the buffer of the latest screenshot\<close>
  "shown s = latest_shot None (trace s)"

definition ends :: "rstate \<Rightarrow> nat" where
  \<comment> \<open>how often the encoder's input was closed so far\<close>
  "ends s = count_list (trace s) End"

definition final :: "'a res \<Rightarrow> rstate option" where
  \<comment> \<open>the state in which a call returned or threw\<close>
  "final r = (case r of Ok _ s \<Rightarrow> Some s | Throw _ s \<Rightarrow> Some s | Stuck \<Rightarrow> None)"

definition keeps :: "rstate \<Rightarrow> rstate \<Rightarrow> bool" where
  \<comment> \<open>from the first state to the second the frames stayed in order and the encoder's input
     was not closed\<close>
  "keeps s s' = ((orderly s \<longrightarrow> orderly s') \<and> ends s' = ends s)"

section \<open>The export options\<close>

definition is_digit :: "char \<Rightarrow> bool" where
  "is_digit c = (48 \<le> (of_char c :: nat) \<and> (of_char c :: nat) \<le> 57)"

definition digits_value :: "string \<Rightarrow> nat" where
  "digits_value ds = foldl (\<lambda>n c. 10 * n + (of_char c - 48)) 0 ds"

definition number_of_digits :: "string \<Rightarrow> jsnum" where
  \<comment> \<open>\<open>Number(s)\<close> for a string of decimal digits: what rounds to no finite double is \<open>Infinity\<close>\<close>
  "number_of_digits ds =
     (if digits_value ds \<ge> 2 ^ 1024 - 2 ^ 970 then PInf else Fin (of_nat (digits_value ds)))"

definition match_size :: "string \<Rightarrow> (string \<times> string) option" where
  \<comment> \<open>\<open>value.match(/^(\d+)x(\d+)$/i)\<close>\<close>
  "match_size v =
     (case dropWhile is_digit v of
        [] \<Rightarrow> None
      | c # h \<Rightarrow>
          if (c = CHR ''x'' \<or> c = CHR ''X'') \<and> takeWhile is_digit v \<noteq> [] \<and> h \<noteq> []
              \<and> list_all is_digit h
          then Some (takeWhile is_digit v, h) else None)"

definition parseVideoSize :: "string option \<Rightarrow> exn + (jsnum \<times> jsnum) option" where
  "parseVideoSize v =
     (case v of
        None \<Rightarrow> Inr None
      | Some s \<Rightarrow>
          if s = [] then Inr None
          else
            (case match_size s of
               None \<Rightarrow>
                 Inl (Error (''[slidev] Invalid --video-size '' @ quoted s @ ''. Expected ''
                   @ quoted ''<width>x<height>'' @ '', for example '' @ quoted ''1920x1080''))
             | Some (w, h) \<Rightarrow>
                 if \<not> js_isInteger (number_of_digits w) \<or> \<not> js_isInteger (number_of_digits h)
                     \<or> js_le (number_of_digits w) (Fin 0) \<or> js_le (number_of_digits h) (Fin 0)
                 then Inl (Error (''[slidev] Invalid --video-size '' @ quoted s
                   @ ''. Width and height should be positive integers.''))
                 else Inr (Some (number_of_digits w, number_of_digits h))))"

text \<open>\<open>options.data.config.export\<close>, as far as the MP4 export reads it.\<close>

record export_cfg =
  cfg_timeout :: "jsnum option"
  cfg_withClicks :: "bool option"
  cfg_videoInterval :: "jsnum option"
  cfg_videoFps :: "jsnum option"
  cfg_videoSize :: "string option"
  cfg_videoMotionScale :: js_arg

text \<open>The \<open>ExportArgs\<close> that the export API plugin builds; the format is always \<open>mp4\<close>.\<close>

record export_args =
  arg_output :: string
  arg_videoInterval :: "jsnum option"
  arg_videoFps :: "jsnum option"
  arg_videoSize :: "string option"
  arg_range :: "string option"
  arg_dark :: "bool option"

definition first_defined :: "'a option \<Rightarrow> 'a option \<Rightarrow> 'a option" where
  \<comment> \<open>a key of the arguments, when defined, overrides the key of the configuration\<close>
  "first_defined a b = (case a of Some x \<Rightarrow> Some x | None \<Rightarrow> b)"

definition getExportOptions :: "export_cfg \<Rightarrow> export_args \<Rightarrow> exn + ExportOptions" where
  "getExportOptions cfg args =
     (case parseVideoSize (first_defined (arg_videoSize args) (cfg_videoSize cfg)) of
        Inl x \<Rightarrow> Inl x
      | Inr parsedVideoSize \<Rightarrow>
          Inr \<lparr>opt_withClicks = (case cfg_withClicks cfg of None \<Rightarrow> True | Some b \<Rightarrow> b),
               opt_timeout = (case cfg_timeout cfg of None \<Rightarrow> Fin 30000 | Some t \<Rightarrow> t),
               opt_output = arg_output args,
               opt_videoInterval =
                 (case first_defined (arg_videoInterval args) (cfg_videoInterval cfg) of
                    None \<Rightarrow> Fin 2000 | Some n \<Rightarrow> n),
               opt_videoFps =
                 (case first_defined (arg_videoFps args) (cfg_videoFps cfg) of
                    None \<Rightarrow> Fin 30 | Some n \<Rightarrow> n),
               opt_videoMotionScale =
                 (case cfg_videoMotionScale cfg of Undefined \<Rightarrow> Num (Fin 1) | v \<Rightarrow> v)\<rparr>)"

text \<open>The background task of a job: \<open>exportSlides({..., ...getExportOptions(args, options)})\<close>.\<close>

definition run_export :: "env \<Rightarrow> export_cfg \<Rightarrow> export_args \<Rightarrow> rstate \<Rightarrow> unit res" where
  "run_export e cfg args s =
     (case getExportOptions cfg args of
        Inl x \<Rightarrow> Throw x s
      | Inr opts \<Rightarrow> exportSlides e opts s)"

section \<open>The export API plugin: video export jobs\<close>

datatype job_status = StatusRunning | StatusDone | StatusError

record VideoExportJob =
  job_status :: job_status
  job_file :: "string option"
  job_error :: "string option"
  job_startedAt :: int
  job_completedAt :: "int option"
  job_durationMs :: "int option"

definition VIDEO_EXPORT_JOB_TTL_MS :: int where
  "VIDEO_EXPORT_JOB_TTL_MS = 10 * 60 * 1000"

text \<open>The registry is a \<open>Map\<close>: an association list in the order of insertion.\<close>

fun map_set :: "string \<Rightarrow> 'v \<Rightarrow> (string \<times> 'v) list \<Rightarrow> (string \<times> 'v) list" where
  "map_set k v [] = [(k, v)]"
| "map_set k v (p # ps) = (if fst p = k then (k, v) # ps else p # map_set k v ps)"

text \<open>What the path module of the runtime answers.\<close>

record node =
  path_basename :: "string \<Rightarrow> string"
  path_basename_md :: "string \<Rightarrow> string"
  path_resolve :: "string \<Rightarrow> string \<Rightarrow> string"

record slidev_options =
  opt_entry :: string
  opt_userRoot :: string
  opt_exportFilename :: "string option"
  opt_export :: export_cfg

record job_response =
  r_jobId :: "string option"
  r_status :: job_status
  r_file :: "string option"
  r_error :: "string option"
  r_startedAt :: int
  r_completedAt :: "int option"
  r_durationMs :: int
  r_filename :: "string option"
  r_downloadUrl :: "string option"

definition resolveJobResponse :: "node \<Rightarrow> int \<Rightarrow> VideoExportJob \<Rightarrow> string option \<Rightarrow> job_response" where
  "resolveJobResponse nd now job jobId =
     \<lparr>r_jobId = (if truthy_str jobId then jobId else None),
      r_status = job_status job,
      r_file = job_file job,
      r_error = job_error job,
      r_startedAt = job_startedAt job,
      r_completedAt = job_completedAt job,
      r_durationMs =
        (if job_status job = StatusRunning then max 0 (now - job_startedAt job)
         else (case job_durationMs job of
                 Some d \<Rightarrow> d
               | None \<Rightarrow>
                   max 0 ((case job_completedAt job of Some t \<Rightarrow> t | None \<Rightarrow> now)
                     - job_startedAt job))),
      r_filename = (if truthy_str (job_file job) then Some (path_basename nd (the (job_file job))) else None),
      r_downloadUrl =
        (if truthy_str jobId \<and> job_status job = StatusDone
         then Some (''/__slidev/export/video/'' @ the jobId @ ''/download'') else None)\<rparr>"

definition cleanupJobs :: "int \<Rightarrow> (string \<times> VideoExportJob) list \<Rightarrow> (string \<times> VideoExportJob) list" where
  "cleanupJobs now js =
     filter (\<lambda>(jobId, job).
         job_status job = StatusRunning
         \<or> \<not> now - (case job_completedAt job of Some t \<Rightarrow> t | None \<Rightarrow> job_startedAt job)
               > VIDEO_EXPORT_JOB_TTL_MS)
       js"

definition listJobs :: "node \<Rightarrow> int \<Rightarrow> (string \<times> VideoExportJob) list \<Rightarrow> job_response list" where
  \<comment> \<open>sorted by \<open>startedAt\<close>, latest first; the sort is stable\<close>
  "listJobs nd now js =
     sort_key (\<lambda>d. - r_startedAt d) (map (\<lambda>(jobId, job). resolveJobResponse nd now job (Some jobId)) js)"

datatype json = JNull | JBool bool | JNum jsnum | JStr string | JOther

record payload =
  p_videoInterval :: "json option"
  p_videoFps :: "json option"
  p_videoSize :: "json option"
  p_range :: "json option"
  p_dark :: "json option"

definition finite_number :: "json option \<Rightarrow> jsnum option" where
  \<comment> \<open>\<open>Number.isFinite(x) ? Number(x) : undefined\<close>\<close>
  "finite_number j = (case j of Some (JNum n) \<Rightarrow> if js_isFinite n then Some n else None | _ \<Rightarrow> None)"

definition js_round :: "jsnum \<Rightarrow> jsnum" where
  \<comment> \<open>\<open>Math.round\<close>\<close>
  "js_round x = (case x of Fin r \<Rightarrow> Fin (of_int \<lfloor>r + 1 / 2\<rfloor>) | _ \<Rightarrow> x)"

definition getDefaultOutputBase :: "slidev_options \<Rightarrow> node \<Rightarrow> string" where
  "getDefaultOutputBase sv nd =
     (if sanitizePart
           (if truthy_str (opt_exportFilename sv) then the (opt_exportFilename sv)
            else path_basename_md nd (opt_entry sv) @ ''-export'') \<noteq> []
      then sanitizePart
           (if truthy_str (opt_exportFilename sv) then the (opt_exportFilename sv)
            else path_basename_md nd (opt_entry sv) @ ''-export'')
      else ''slidev-export'')"

definition rangePart :: "json option \<Rightarrow> exn + string" where
  \<comment> \<open>\<open>sanitizePart(payload.range?.trim() || 'all')\<close>; \<open>trim\<close> is a method of strings only\<close>
  "rangePart j =
     (case j of
        None \<Rightarrow> Inr (sanitizePart ''all'')
      | Some JNull \<Rightarrow> Inr (sanitizePart ''all'')
      | Some (JStr s) \<Rightarrow> Inr (sanitizePart (if trim s = [] then ''all'' else trim s))
      | Some _ \<Rightarrow> Inl (Error ''payload.range?.trim is not a function''))"

definition sizePart :: "json option \<Rightarrow> exn + string" where
  \<comment> \<open>\<open>sanitizePart(payload.videoSize || '1920x1080') || '1920x1080'\<close>\<close>
  "sizePart j =
     (case j of
        None \<Rightarrow> Inr ''1920x1080''
      | Some JNull \<Rightarrow> Inr ''1920x1080''
      | Some (JBool False) \<Rightarrow> Inr ''1920x1080''
      | Some (JStr s) \<Rightarrow>
          Inr (if s = [] \<or> sanitizePart s = [] then ''1920x1080'' else sanitizePart s)
      | Some (JNum n) \<Rightarrow>
          if n = NaN \<or> n = Fin 0 then Inr ''1920x1080''
          else Inl (Error ''value.trim is not a function'')
      | Some _ \<Rightarrow> Inl (Error ''value.trim is not a function''))"

text \<open>What the world gives to one request: the parsed body (\<open>None\<close> when it is not an
  object), the port of the server, a fresh UUID, the time stamp and the clock.\<close>

record post_inputs =
  body :: "exn + payload option"
  port :: "nat option"
  uuid :: string
  timestamp :: string
  post_now :: int

definition empty_payload :: payload where
  "empty_payload =
     \<lparr>p_videoInterval = None, p_videoFps = None, p_videoSize = None, p_range = None, p_dark = None\<rparr>"

definition buildOutputFilename ::
    "slidev_options \<Rightarrow> node \<Rightarrow> env \<Rightarrow> payload \<Rightarrow> post_inputs \<Rightarrow> exn + string" where
  "buildOutputFilename sv nd e p inp =
     (case rangePart (p_range p) of
        Inl x \<Rightarrow> Inl x
      | Inr rp \<Rightarrow>
          (case sizePart (p_videoSize p) of
             Inl x \<Rightarrow> Inl x
           | Inr sp \<Rightarrow>
               Inr (getDefaultOutputBase sv nd @ ''-'' @ rp @ ''-''
                 @ (case finite_number (p_videoFps p) of
                      Some n \<Rightarrow> number_toString e (js_round n) @ ''fps''
                    | None \<Rightarrow> ''30fps'')
                 @ ''-'' @ sp @ ''-'' @ timestamp inp @ ''-'' @ take 8 (uuid inp) @ ''.mp4'')))"

definition build_args :: "payload \<Rightarrow> string \<Rightarrow> export_args" where
  "build_args p out =
     \<lparr>arg_output = out,
      arg_videoInterval = finite_number (p_videoInterval p),
      arg_videoFps = finite_number (p_videoFps p),
      arg_videoSize = (case p_videoSize p of Some (JStr s) \<Rightarrow> Some s | _ \<Rightarrow> None),
      arg_range =
        (case p_range p of Some (JStr s) \<Rightarrow> if trim s \<noteq> [] then Some (trim s) else None | _ \<Rightarrow> None),
      arg_dark = (case p_dark p of Some (JBool b) \<Rightarrow> Some b | _ \<Rightarrow> None)\<rparr>"

text \<open>A job's background task, started and not yet ended.\<close>

record task =
  t_output :: string
  t_startedAt :: int
  t_args :: export_args

record service =
  jobs :: "(string \<times> VideoExportJob) list"
  tasks :: "(string \<times> task) list"

datatype route = VideoRoot | VideoJob string | VideoJobDownload string | NoMatch

record request =
  req_verb :: string
  req_route :: route

datatype response =
    Jobs "job_response list"
  | JobId string
  | BadRequest string
  | NotFound string
  | Descriptor job_response
  | Stream string string
  | Next

definition statusCode :: "response \<Rightarrow> nat option" where
  "statusCode r =
     (case r of BadRequest _ \<Rightarrow> Some 400 | NotFound _ \<Rightarrow> Some 404 | Next \<Rightarrow> None | _ \<Rightarrow> Some 200)"

definition contentType :: "response \<Rightarrow> string option" where
  "contentType r =
     (case r of Stream _ _ \<Rightarrow> Some ''video/mp4'' | Next \<Rightarrow> None | _ \<Rightarrow> Some ''application/json'')"

definition contentDisposition :: "response \<Rightarrow> string option" where
  "contentDisposition r =
     (case r of Stream _ name \<Rightarrow> Some (''attachment; filename='' @ quoted name) | _ \<Rightarrow> None)"

definition message :: "exn \<Rightarrow> string" where
  "message x = (case x of Error m \<Rightarrow> m)"

text \<open>The handler of \<open>POST /export/video\<close>.\<close>

definition post_video ::
    "slidev_options \<Rightarrow> node \<Rightarrow> env \<Rightarrow> post_inputs \<Rightarrow> service \<Rightarrow> response \<times> service" where
  "post_video sv nd e inp st =
     (case body inp of
        Inl x \<Rightarrow> (BadRequest (message x), st)
      | Inr raw \<Rightarrow>
          if port inp = None \<or> port inp = Some 0
          then (BadRequest ''Unable to resolve dev server port for exporting'', st)
          else
            (case buildOutputFilename sv nd e (case raw of None \<Rightarrow> empty_payload | Some p \<Rightarrow> p) inp of
               Inl x \<Rightarrow> (BadRequest (message x), st)
             | Inr filename \<Rightarrow>
                 (JobId (uuid inp),
                  st\<lparr>jobs := map_set (uuid inp)
                         \<lparr>job_status = StatusRunning,
                          job_file = Some (path_resolve nd (opt_userRoot sv) filename),
                          job_error = None, job_startedAt = post_now inp,
                          job_completedAt = None, job_durationMs = None\<rparr> (jobs st),
                     tasks := map_set (uuid inp)
                         \<lparr>t_output = path_resolve nd (opt_userRoot sv) filename,
                          t_startedAt = post_now inp,
                          t_args = build_args (case raw of None \<Rightarrow> empty_payload | Some p \<Rightarrow> p)
                            (path_resolve nd (opt_userRoot sv) filename)\<rparr> (tasks st)\<rparr>)))"

text \<open>The handler of \<open>GET /export/video/<id>/download\<close>.\<close>

definition download :: "node \<Rightarrow> string \<Rightarrow> service \<Rightarrow> response" where
  "download nd jobId st =
     (case map_of (jobs st) jobId of
        None \<Rightarrow> NotFound ''Export file not ready''
      | Some job \<Rightarrow>
          if job_status job \<noteq> StatusDone \<or> \<not> truthy_str (job_file job)
          then NotFound ''Export file not ready''
          else Stream (the (job_file job)) (path_basename nd (the (job_file job))))"

text \<open>The middleware: the sweep first, then the route. A job id in a route is not empty.\<close>

definition handle ::
    "slidev_options \<Rightarrow> node \<Rightarrow> env \<Rightarrow> int \<Rightarrow> post_inputs \<Rightarrow> request \<Rightarrow> service
      \<Rightarrow> response \<times> service" where
  "handle sv nd e now inp req st0 =
     (case req_route req of
        NoMatch \<Rightarrow> (Next, st0\<lparr>jobs := cleanupJobs now (jobs st0)\<rparr>)
      | VideoRoot \<Rightarrow>
          if req_verb req = ''POST''
          then post_video sv nd e inp (st0\<lparr>jobs := cleanupJobs now (jobs st0)\<rparr>)
          else (Next, st0\<lparr>jobs := cleanupJobs now (jobs st0)\<rparr>)
      | VideoJob jobId \<Rightarrow>
          if req_verb req = ''GET'' \<and> jobId = ''jobs''
          then (Jobs (listJobs nd now (cleanupJobs now (jobs st0))),
                st0\<lparr>jobs := cleanupJobs now (jobs st0)\<rparr>)
          else if req_verb req = ''GET''
          then (case map_of (cleanupJobs now (jobs st0)) jobId of
                  None \<Rightarrow> (NotFound ''Export job not found'', st0\<lparr>jobs := cleanupJobs now (jobs st0)\<rparr>)
                | Some job \<Rightarrow>
                    (Descriptor (resolveJobResponse nd now job (Some jobId)),
                     st0\<lparr>jobs := cleanupJobs now (jobs st0)\<rparr>))
          else (Next, st0\<lparr>jobs := cleanupJobs now (jobs st0)\<rparr>)
      | VideoJobDownload jobId \<Rightarrow>
          if req_verb req = ''GET''
          then (download nd jobId (st0\<lparr>jobs := cleanupJobs now (jobs st0)\<rparr>),
                st0\<lparr>jobs := cleanupJobs now (jobs st0)\<rparr>)
          else (Next, st0\<lparr>jobs := cleanupJobs now (jobs st0)\<rparr>))"

text \<open>The end of a background task at time \<open>now\<close>, in the world \<open>e\<close>.\<close>

definition task_ends ::
    "slidev_options \<Rightarrow> string \<Rightarrow> env \<Rightarrow> rstate \<Rightarrow> int \<Rightarrow> service \<Rightarrow> service" where
  "task_ends sv jobId e s now st =
     (case map_of (tasks st) jobId of
        None \<Rightarrow> st
      | Some t \<Rightarrow>
          (case run_export e (opt_export sv) (t_args t) s of
             Ok _ _ \<Rightarrow>
               st\<lparr>jobs := map_set jobId
                      \<lparr>job_status = StatusDone, job_file = Some (t_output t), job_error = None,
                       job_startedAt = t_startedAt t, job_completedAt = Some now,
                       job_durationMs = Some (max 0 (now - t_startedAt t))\<rparr> (jobs st),
                  tasks := filter (\<lambda>p. fst p \<noteq> jobId) (tasks st)\<rparr>
           | Throw x _ \<Rightarrow>
               st\<lparr>jobs := map_set jobId
                      \<lparr>job_status = StatusError, job_file = Some (t_output t),
                       job_error = Some (message x),
                       job_startedAt = t_startedAt t, job_completedAt = Some now,
                       job_durationMs = Some (max 0 (now - t_startedAt t))\<rparr> (jobs st),
                  tasks := filter (\<lambda>p. fst p \<noteq> jobId) (tasks st)\<rparr>
           | Stuck \<Rightarrow> st))"

text \<open>The life of the service: requests and ends of tasks, from an empty registry.\<close>

datatype service_event =
    Request int post_inputs request
  | TaskEnds string env rstate int

definition service_step :: "slidev_options \<Rightarrow> node \<Rightarrow> env \<Rightarrow> service \<Rightarrow> service_event \<Rightarrow> service" where
  "service_step sv nd e st ev =
     (case ev of
        Request now inp req \<Rightarrow> snd (handle sv nd e now inp req st)
      | TaskEnds jobId w s now \<Rightarrow> task_ends sv jobId w s now st)"

definition service_run :: "slidev_options \<Rightarrow> node \<Rightarrow> env \<Rightarrow> service_event list \<Rightarrow> service" where
  "service_run sv nd e evs = foldl (service_step sv nd e) \<lparr>jobs = [], tasks = []\<rparr> evs"

definition fresh_id :: "service_event \<Rightarrow> bool" where
  \<comment> \<open>\<open>randomUUID()\<close> answers a string that is not empty\<close>
  "fresh_id ev = (case ev of Request _ inp _ \<Rightarrow> uuid inp \<noteq> [] | TaskEnds _ _ _ _ \<Rightarrow> True)"

definition descriptors :: "response \<Rightarrow> job_response list" where
  \<comment> \<open>the job descriptors in a response\<close>
  "descriptors r = (case r of Jobs ds \<Rightarrow> ds | Descriptor d \<Rightarrow> [d] | _ \<Rightarrow> [])"

definition url_iff_done_file :: "job_response \<Rightarrow> bool" where
  "url_iff_done_file d =
     ((r_downloadUrl d \<noteq> None \<and> r_downloadUrl d \<noteq> Some [])
        = (r_status d = StatusDone \<and> truthy_str (r_file d)))"

definition route_id_ok :: "request \<Rightarrow> bool" where
  \<comment> \<open>the job id that the route expression captures has at least one character\<close>
  "route_id_ok req =
     (case req_route req of VideoJob i \<Rightarrow> i \<noteq> [] | VideoJobDownload i \<Rightarrow> i \<noteq> [] | _ \<Rightarrow> True)"

definition has_file :: "(string \<times> VideoExportJob) \<Rightarrow> bool" where
  "has_file p = (fst p \<noteq> [] \<and> truthy_str (job_file (snd p)))"

definition has_output :: "(string \<times> task) \<Rightarrow> bool" where
  "has_output p = (fst p \<noteq> [] \<and> t_output (snd p) \<noteq> [])"

definition not_ready :: "(string \<times> VideoExportJob) list \<Rightarrow> string \<Rightarrow> bool" where
  \<comment> \<open>the job is missing, is not done, or has no file\<close>
  "not_ready js jobId =
     (case map_of js jobId of
        None \<Rightarrow> True
      | Some job \<Rightarrow> job_status job \<noteq> StatusDone \<or> job_file job = None \<or> job_file job = Some [])"










definition example_node :: node where
  "example_node =
     \<lparr>path_basename = (\<lambda>p. rev (takeWhile (\<lambda>c. c \<noteq> CHR ''/'') (rev p))),
      path_basename_md = (\<lambda>p. ''slides''),
      path_resolve = (\<lambda>root name. root @ ''/'' @ name)\<rparr>"

definition example_options :: slidev_options where
  "example_options =
     \<lparr>opt_entry = ''/deck/slides.md'', opt_userRoot = ''/deck'', opt_exportFilename = None,
      opt_export = \<lparr>cfg_timeout = None, cfg_withClicks = None, cfg_videoInterval = None,
        cfg_videoFps = None, cfg_videoSize = None, cfg_videoMotionScale = Undefined\<rparr>\<rparr>"

definition example_post :: "payload \<Rightarrow> int \<Rightarrow> post_inputs" where
  "example_post p t =
     \<lparr>body = Inr (Some p), port = Some 3030, uuid = ''0b9e4c1a-7d2f'', timestamp = ''20261103-101500'',
      post_now = t\<rparr>"

definition registry_ok :: "service \<Rightarrow> bool" where
  \<comment> \<open>every job has an id and a file, every pending task an id and an output\<close>
  "registry_ok st = (list_all has_file (jobs st) \<and> list_all has_output (tasks st))"

section \<open>Properties of the file name components\<close>

lemma replace_unsafe_runs_chars: "list_all is_part_char (replace_unsafe_runs s)"
  by (induction s rule: replace_unsafe_runs.induct) (auto simp: is_part_char_def)

lemma collapse_dashes_subset: "set (collapse_dashes s) \<subseteq> set s"
proof (induction s rule: collapse_dashes.induct)
  case 1
  then show ?case by simp
next
  case (2 c cs)
  have "set (dropWhile (\<lambda>d. d = CHR ''-'') cs) \<subseteq> set cs"
    by (rule set_dropWhileD [THEN subsetI])
  with 2 show ?case by auto
qed

lemma collapse_dashes_head:
  "collapse_dashes s = a # r \<Longrightarrow> \<exists>t. s = a # t"
  by (cases s) (auto split: if_splits)

lemma collapse_dashes_no_run: "\<not> has_dash_run (collapse_dashes s)"
proof (induction s rule: collapse_dashes.induct)
  case 1
  then show ?case by simp
next
  case (2 c cs)
  show ?case
  proof (cases "c = CHR ''-''")
    case True
    let ?r = "dropWhile (\<lambda>d. d = CHR ''-'') cs"
    have nr: "\<not> has_dash_run (collapse_dashes ?r)" using 2 True by simp
    show ?thesis
    proof (cases "collapse_dashes ?r")
      case Nil
      then show ?thesis using True by simp
    next
      case (Cons b t)
      then obtain u where u: "?r = b # u" using collapse_dashes_head by blast
      then have "b \<noteq> CHR ''-''" using hd_dropWhile [of "\<lambda>d. d = CHR ''-''" cs] by auto
      then show ?thesis using True Cons nr by simp
    qed
  next
    case False
    then have nr: "\<not> has_dash_run (collapse_dashes cs)" using 2 by simp
    show ?thesis
      using False nr by (cases "collapse_dashes cs") auto
  qed
qed

lemma no_run_tl: "\<not> has_dash_run (c # cs) \<Longrightarrow> \<not> has_dash_run cs"
  by (cases cs) auto

lemma no_run_butlast: "\<not> has_dash_run s \<Longrightarrow> \<not> has_dash_run (butlast s)"
  by (induction s rule: has_dash_run.induct) (auto split: if_splits)

lemma no_run_last: "\<not> has_dash_run s \<Longrightarrow> s \<noteq> [] \<Longrightarrow> last s = CHR ''-'' \<Longrightarrow> butlast s \<noteq> [] \<Longrightarrow>
    last (butlast s) \<noteq> CHR ''-''"
  by (induction s rule: has_dash_run.induct) (auto split: if_splits)

lemma strip_edge_dashes_subset: "set (strip_edge_dashes s) \<subseteq> set s"
  by (cases s) (auto simp: strip_edge_dashes_def Let_def dest: in_set_butlastD)

lemma strip_edge_dashes_no_run: "\<not> has_dash_run s \<Longrightarrow> \<not> has_dash_run (strip_edge_dashes s)"
  by (cases s) (auto simp: strip_edge_dashes_def Let_def dest: no_run_tl no_run_butlast)

lemma strip_edge_dashes_front:
  assumes "\<not> has_dash_run s"
  shows "take 1 (strip_edge_dashes s) \<noteq> ''-''"
proof (cases s)
  case Nil
  then show ?thesis by (simp add: strip_edge_dashes_def)
next
  case (Cons c cs)
  define s1 where "s1 = (if c = CHR ''-'' then cs else s)"
  have front: "take 1 s1 \<noteq> ''-''"
    using assms Cons unfolding s1_def by (cases cs) auto
  have "strip_edge_dashes s = (if s1 \<noteq> [] \<and> last s1 = CHR ''-'' then butlast s1 else s1)"
    using Cons by (simp add: strip_edge_dashes_def s1_def)
  moreover have "take 1 (butlast s1) \<noteq> ''-''"
    using front by (cases s1; cases "tl s1") auto
  ultimately show ?thesis using front by simp
qed

lemma strip_edge_dashes_back:
  assumes "\<not> has_dash_run s"
  shows "take 1 (rev (strip_edge_dashes s)) \<noteq> ''-''"
proof -
  define s1 where "s1 = (case s of [] \<Rightarrow> [] | c # cs \<Rightarrow> if c = CHR ''-'' then cs else s)"
  have nr: "\<not> has_dash_run s1"
    using assms unfolding s1_def by (cases s) (auto dest: no_run_tl)
  have eq: "strip_edge_dashes s = (if s1 \<noteq> [] \<and> last s1 = CHR ''-'' then butlast s1 else s1)"
    by (simp add: strip_edge_dashes_def s1_def)
  have last_rev: "\<And>t::string. t \<noteq> [] \<Longrightarrow> take 1 (rev t) = [last t]"
    by (metis One_nat_def hd_rev rev_is_Nil_conv take_Suc take_0)
  show ?thesis
  proof (cases "s1 \<noteq> [] \<and> last s1 = CHR ''-''")
    case True
    note dash = True
    show ?thesis
    proof (cases "butlast s1 = []")
      case True
      then show ?thesis using eq dash by simp
    next
      case False
      then have "last (butlast s1) \<noteq> CHR ''-''" using no_run_last nr dash by blast
      then show ?thesis using eq dash False last_rev by simp
    qed
  next
    case False
    then show ?thesis using eq last_rev by (cases "s1 = []") auto
  qed
qed

text \<open>
  C9. For every input string the sanitized file name component contains only characters of
  the class \<open>[\w.-]\<close>, does not start with a dash, does not end with a dash, and has no two
  consecutive dashes.
\<close>

theorem sanitizePart_shape:
  "list_all is_part_char (sanitizePart v)
   \<and> take 1 (sanitizePart v) \<noteq> ''-''
   \<and> take 1 (rev (sanitizePart v)) \<noteq> ''-''
   \<and> \<not> has_dash_run (sanitizePart v)"
proof -
  let ?r = "replace_unsafe_runs (trim v)"
  let ?c = "collapse_dashes ?r"
  have "set (sanitizePart v) \<subseteq> set ?r"
    unfolding sanitizePart_def
    using strip_edge_dashes_subset collapse_dashes_subset by blast
  then have chars: "list_all is_part_char (sanitizePart v)"
    using replace_unsafe_runs_chars [of "trim v"] by (auto simp: list_all_iff)
  have nr: "\<not> has_dash_run ?c" by (rule collapse_dashes_no_run)
  show ?thesis
    using chars nr strip_edge_dashes_front [OF nr] strip_edge_dashes_back [OF nr]
      strip_edge_dashes_no_run [OF nr]
    by (simp add: sanitizePart_def)
qed

theorem sanitizePart_shape_witness:
  "sanitizePart ''  my deck!! (v2).md -- '' = ''my-deck-v2-.md''
   \<and> list_all is_part_char ''my-deck-v2-.md''
   \<and> \<not> has_dash_run ''my-deck-v2-.md''"
  using sanitizePart_shape [of "''  my deck!! (v2).md -- ''"]
  by (simp add: sanitizePart_def trim_def is_js_space_def is_part_char_def is_word_char_def
      strip_edge_dashes_def)

section \<open>Properties of the PDF outline\<close>

lemma join_append:
  "xs \<noteq> [] \<Longrightarrow> ys \<noteq> [] \<Longrightarrow> join sep (xs @ ys) = join sep xs @ sep @ join sep ys"
proof (induction sep xs rule: join.induct)
  case (1 sep)
  then show ?case by simp
next
  case (2 sep x)
  then show ?case by (cases ys) auto
next
  case (3 sep x y ys)
  then show ?case by simp
qed

lemma join_nonempty: "xs \<noteq> [] \<Longrightarrow> [] \<notin> set xs \<Longrightarrow> join sep xs \<noteq> []"
  by (induction sep xs rule: join.induct) auto

lemma join_concat:
  "[] \<notin> set lss \<Longrightarrow> join sep (map (join sep) lss) = join sep (concat lss)"
proof (induction lss)
  case Nil
  then show ?case by simp
next
  case (Cons ls lss)
  show ?case
  proof (cases "lss = []")
    case True
    then show ?thesis by simp
  next
    case False
    then obtain m ms where lss: "lss = m # ms" by (cases lss) auto
    have ne: "ls \<noteq> []" "concat lss \<noteq> []" using Cons.prems lss by auto
    have "join sep (map (join sep) (ls # lss)) = join sep ls @ sep @ join sep (map (join sep) lss)"
      using lss by simp
    also have "\<dots> = join sep ls @ sep @ join sep (concat lss)"
      using Cons by simp
    also have "\<dots> = join sep (ls @ concat lss)"
      using ne by (simp add: join_append)
    finally show ?thesis by simp
  qed
qed

lemma flatten_item_nonempty: "flatten_item it \<noteq> []"
  by (cases it) simp

lemma item_line_nonempty: "item_line it \<noteq> []" "[] \<noteq> item_line it"
  by (simp_all add: item_line_def)

lemma itemOutline_lines:
  "list_all (\<lambda>i. truthy_str (toc_title i)) (flatten_item it) \<Longrightarrow>
   itemOutline it = Some (join newline (map item_line (flatten_item it)))"
proof (induction it)
  case (TocItem n cs lvl tlv p h t)
  let ?ls = "\<lambda>c. map item_line (flatten_item c)"
  have ih: "\<And>c. c \<in> set cs \<Longrightarrow> itemOutline c = Some (join newline (?ls c))"
    using TocItem by (auto simp: list_all_iff)
  have ne: "\<And>c. join newline (?ls c) \<noteq> []"
    by (rule join_nonempty) (auto simp: flatten_item_nonempty item_line_nonempty)
  have "map the (filter truthy_str (map itemOutline cs)) = map (\<lambda>c. join newline (?ls c)) cs"
    using ih
  proof (induction cs)
    case Nil
    then show ?case by simp
  next
    case (Cons c cs)
    then show ?case using ne [of c] by (simp add: truthy_str_def)
  qed
  then have "join newline (map the (filter truthy_str (map itemOutline cs)))
      = join newline (map (join newline) (map ?ls cs))"
    by (simp add: comp_def)
  also have "\<dots> = join newline (concat (map ?ls cs))"
    by (rule join_concat) (auto simp: flatten_item_nonempty)
  also have "\<dots> = join newline (map item_line (concat (map flatten_item cs)))"
    by (simp add: map_concat comp_def)
  finally have kids: "join newline (map the (filter truthy_str (map itemOutline cs)))
      = join newline (map item_line (concat (map flatten_item cs)))" .
  have t: "truthy_str t" using TocItem.prems by simp
  have line: "p @ ''|'' @ replicate (lvl - 1) CHR ''-'' @ ''|'' @ the t
      = item_line (TocItem n cs lvl tlv p h t)"
    by (simp add: item_line_def)
  show ?case
  proof (cases "cs = []")
    case True
    then show ?thesis using t by (simp add: item_line_def)
  next
    case False
    then have "concat (map flatten_item cs) \<noteq> []"
      by (cases cs) (auto simp: flatten_item_nonempty)
    then obtain y ys where ys: "map item_line (concat (map flatten_item cs)) = y # ys"
      by (cases "concat (map flatten_item cs)") auto
    have "[] \<notin> set (y # ys)"
      using ys item_line_nonempty by (metis (no_types, lifting) imageE list.set_map)
    then have "join newline (y # ys) \<noteq> []" by (intro join_nonempty) auto
    moreover have "join newline (map the (filter truthy_str (map itemOutline cs)))
        = join newline (y # ys)"
      using kids ys by simp
    ultimately have "itemOutline (TocItem n cs lvl tlv p h t)
        = Some (item_line (TocItem n cs lvl tlv p h t) @ newline @ join newline (y # ys))"
      using t by (simp add: Let_def item_line_def)
    also have "\<dots> = Some (join newline (item_line (TocItem n cs lvl tlv p h t) # y # ys))"
      by simp
    finally show ?thesis using ys by simp
  qed
qed

lemma makeOutline_lines:
  assumes "list_all (\<lambda>i. truthy_str (toc_title i)) (flatten tree)"
  shows "makeOutline tree = join newline (map item_line (flatten tree))"
proof -
  let ?ls = "\<lambda>c. map item_line (flatten_item c)"
  have ih: "\<And>c. c \<in> set tree \<Longrightarrow> itemOutline c = Some (join newline (?ls c))"
    using assms by (intro itemOutline_lines) (auto simp: flatten_def list_all_iff)
  have ne: "\<And>c. join newline (?ls c) \<noteq> []"
    by (rule join_nonempty) (auto simp: flatten_item_nonempty item_line_nonempty)
  have "map the (filter truthy_str (map itemOutline tree)) = map (\<lambda>c. join newline (?ls c)) tree"
    using ih
  proof (induction tree)
    case Nil
    then show ?case by simp
  next
    case (Cons c cs)
    then show ?case using ne [of c] by (simp add: truthy_str_def)
  qed
  then have "makeOutline tree = join newline (map (join newline) (map ?ls tree))"
    by (simp add: makeOutline_def comp_def)
  also have "\<dots> = join newline (concat (map ?ls tree))"
    by (rule join_concat) (auto simp: flatten_item_nonempty)
  finally show ?thesis by (simp add: flatten_def map_concat comp_def)
qed

lemma flatten_snoc: "flatten (xs @ [x]) = flatten xs @ flatten_item x"
  by (simp add: flatten_def)

lemma flatten_item_set_children:
  "flatten_item (set_children it cs) = set_children it cs # flatten cs"
  by (simp add: set_children_def flatten_def)

lemma flatten_item_unfold: "flatten_item it = it # flatten (toc_children it)"
  by (cases it) (simp add: flatten_def)

lemma bare_set_children: "bare (set_children it cs) = bare it"
  by (simp add: bare_def set_children_def)

lemma rows_snoc_last:
  "tree \<noteq> [] \<Longrightarrow> rows tree = rows (butlast tree) @ bare (last tree) # rows (toc_children (last tree))"
proof -
  assume "tree \<noteq> []"
  then have "tree = butlast tree @ [last tree]" by simp
  then have "flatten tree = flatten (butlast tree) @ flatten_item (last tree)"
    using flatten_snoc by metis
  then show ?thesis by (simp add: rows_def flatten_item_unfold)
qed

lemma insert_depth_bounds:
  "lvl \<le> insert_depth tree tlv lvl \<and>
   int (insert_depth tree tlv lvl) \<le> max (int lvl) (case tlv of None \<Rightarrow> int lvl | Some t \<Rightarrow> t)"
proof (induction tree tlv lvl rule: insert_depth.induct)
  case (1 tree tlv lvl)
  show ?case
  proof (cases "descends tlv lvl tree")
    case True
    then obtain t where t: "tlv = Some t" "int lvl < t"
      by (auto simp: descends_def split: option.splits)
    from 1 [OF True] t True show ?thesis
      by (subst (1 2) insert_depth.simps) auto
  next
    case False
    then show ?thesis by (subst (1 2) insert_depth.simps) (auto split: option.splits)
  qed
qed

lemma addToTree_rows:
  "rows (addToTree tree info slideIndexes lvl)
     = rows tree @ [new_item info slideIndexes (insert_depth tree (level info) lvl)]"
proof (induction tree info slideIndexes lvl rule: addToTree.induct)
  case (1 tree info slideIndexes lvl)
  show ?case
  proof (cases "descends (level info) lvl tree")
    case True
    then have ne: "tree \<noteq> []" by (auto simp: descends_def split: option.splits)
    let ?kids = "addToTree (toc_children (last tree)) info slideIndexes (lvl + 1)"
    have "rows (addToTree tree info slideIndexes lvl)
        = rows (butlast tree) @ bare (last tree) # rows ?kids"
      using True
      by (subst addToTree.simps)
        (simp add: rows_def flatten_snoc flatten_item_set_children bare_set_children)
    also have "\<dots> = rows (butlast tree) @ bare (last tree) # rows (toc_children (last tree))
        @ [new_item info slideIndexes (insert_depth (toc_children (last tree)) (level info) (lvl + 1))]"
      using 1 [OF True] by simp
    also have "\<dots> = rows tree @ [new_item info slideIndexes (insert_depth tree (level info) lvl)]"
      using True rows_snoc_last [OF ne] by (subst (2) insert_depth.simps) simp
    finally show ?thesis .
  next
    case False
    then show ?thesis
      by (subst addToTree.simps, subst insert_depth.simps)
        (simp add: rows_def flatten_snoc new_item_def bare_def set_children_def)
  qed
qed

lemma levels_ok_set_children:
  "levels_ok d it \<Longrightarrow> list_all (levels_ok (Suc d)) cs \<Longrightarrow> levels_ok d (set_children it cs)"
  by (cases it) (simp add: set_children_def)

lemma levels_ok_children: "levels_ok d it \<Longrightarrow> list_all (levels_ok (Suc d)) (toc_children it)"
  by (cases it) simp

lemma addToTree_levels_ok:
  "list_all (levels_ok lvl) tree \<Longrightarrow> list_all (levels_ok lvl) (addToTree tree info slideIndexes lvl)"
proof (induction tree info slideIndexes lvl rule: addToTree.induct)
  case (1 tree info slideIndexes lvl)
  show ?case
  proof (cases "descends (level info) lvl tree")
    case True
    then have ne: "tree \<noteq> []" by (auto simp: descends_def split: option.splits)
    have all: "list_all (levels_ok lvl) (butlast tree)" "levels_ok lvl (last tree)"
      using "1.prems" ne by (auto simp: list_all_iff dest: in_set_butlastD)
    have "list_all (levels_ok (Suc lvl))
        (addToTree (toc_children (last tree)) info slideIndexes (lvl + 1))"
      using 1(1) [OF True] levels_ok_children [OF all(2)] by simp
    then show ?thesis
      using True all by (subst addToTree.simps) (simp add: levels_ok_set_children)
  next
    case False
    then show ?thesis using "1.prems" by (subst addToTree.simps) simp
  qed
qed

lemma build_snoc: "build idx (ss @ [s]) = addToTree (build idx ss) s idx 1"
  by (simp add: build_def)

lemma build_levels_ok: "list_all (levels_ok 1) (build idx ss)"
  by (induction ss rule: rev_induct) (simp_all add: build_def addToTree_levels_ok)

lemma build_rows:
  "list_all2 (\<lambda>it s. it = new_item s idx (toc_level it) \<and> 1 \<le> toc_level it
        \<and> int (toc_level it) \<le> max 1 (title_level s))
     (rows (build idx ss)) ss"
proof (induction ss rule: rev_induct)
  case Nil
  then show ?case by (simp add: build_def rows_def flatten_def)
next
  case (snoc s ss)
  let ?d = "insert_depth (build idx ss) (level s) 1"
  have "1 \<le> ?d" "int ?d \<le> max 1 (title_level s)"
    using insert_depth_bounds [of 1 "build idx ss" "level s"]
    by (auto simp: title_level_def split: option.splits)
  then have "list_all2 (\<lambda>it s. it = new_item s idx (toc_level it) \<and> 1 \<le> toc_level it
        \<and> int (toc_level it) \<le> max 1 (title_level s)) [new_item s idx ?d] [s]"
    by (simp add: new_item_def split: option.splits)
  then show ?case
    using snoc by (simp add: build_snoc addToTree_rows list_all2_appendI)
qed

lemma tocTree_build: "tocTree slides idx = build idx (titled slides)"
  by (simp add: tocTree_def build_def titled_def)

lemma bare_fields:
  "toc_level (bare it) = toc_level it" "toc_title (bare it) = toc_title it"
  "toc_no (bare it) = toc_no it" "item_line (bare it) = item_line it"
  by (simp_all add: bare_def set_children_def item_line_def)

lemma item_line_new_item: "item_line (new_item s idx d) = outline_line s idx d"
  by (simp add: item_line_def new_item_def outline_line_def)

lemma build_flatten:
  "list_all2 (\<lambda>it s. bare it = new_item s idx (toc_level it) \<and> 1 \<le> toc_level it
        \<and> int (toc_level it) \<le> max 1 (title_level s))
     (flatten (build idx ss)) ss"
  using build_rows [of idx ss] by (simp add: rows_def list_all2_map1 bare_fields)

lemma map_zip_pointwise:
  "list_all2 (\<lambda>x y. f x = g y (h x)) xs ys \<Longrightarrow>
   map f xs = map (\<lambda>(y, d). g y d) (zip ys (map h xs))"
  by (induction xs ys rule: list_all2_induct) auto

lemma build_facts:
  fixes idx ss
  defines "fl \<equiv> flatten (build idx ss)"
  shows "length fl = length ss"
    and "map item_line fl = map (\<lambda>(s, d). outline_line s idx d) (zip ss (map toc_level fl))"
    and "map toc_no fl = map index ss"
    and "map toc_title fl = map title ss"
    and "list_all2 (\<lambda>s d. 1 \<le> d \<and> int d \<le> max 1 (title_level s)) ss (map toc_level fl)"
proof -
  note b = build_flatten [of idx ss, folded fl_def]
  show "length fl = length ss" using b by (rule list_all2_lengthD)
  have "list_all2 (\<lambda>it s. item_line it = outline_line s idx (toc_level it)) fl ss"
    using b by (rule list_all2_mono) (metis bare_fields(4) item_line_new_item)
  then show "map item_line fl = map (\<lambda>(s, d). outline_line s idx d) (zip ss (map toc_level fl))"
    by (rule map_zip_pointwise)
  have "list_all2 (\<lambda>it s. toc_no it = index s) fl ss"
    using b by (rule list_all2_mono) (metis bare_fields(3) new_item_def TocItem.sel(1))
  then show "map toc_no fl = map index ss"
    by (induction fl ss rule: list_all2_induct) auto
  have "list_all2 (\<lambda>it s. toc_title it = title s) fl ss"
    using b by (rule list_all2_mono) (metis bare_fields(2) new_item_def TocItem.sel(7))
  then show "map toc_title fl = map title ss"
    by (induction fl ss rule: list_all2_induct) auto
  have "list_all2 (\<lambda>it s. 1 \<le> toc_level it \<and> int (toc_level it) \<le> max 1 (title_level s)) fl ss"
    using b by (rule list_all2_mono) simp
  then show "list_all2 (\<lambda>s d. 1 \<le> d \<and> int d \<le> max 1 (title_level s)) ss (map toc_level fl)"
    by (induction fl ss rule: list_all2_induct) auto
qed

lemma descends_stays_open:
  "descends tlv lvl tree \<longleftrightarrow> stays_open lvl (stored_level tlv lvl) (spine tree) \<noteq> []"
  by (subst spine.simps) (auto simp: descends_def stored_level_def split: option.splits)

lemma stored_level_descends:
  "descends tlv lvl tree \<Longrightarrow> stored_level tlv (Suc lvl) = stored_level tlv lvl"
  by (auto simp: descends_def stored_level_def split: option.splits)

lemma stays_open_descends:
  "descends tlv lvl tree \<Longrightarrow>
   stays_open lvl (stored_level tlv lvl) (spine tree)
     = toc_titleLevel (last tree) # stays_open (Suc lvl) (stored_level tlv lvl) (spine (toc_children (last tree)))"
  by (subst spine.simps) (auto simp: descends_def stored_level_def split: option.splits)

lemma insert_depth_stays_open:
  "insert_depth tree tlv lvl = lvl + length (stays_open lvl (stored_level tlv lvl) (spine tree))"
proof (induction tree tlv lvl rule: insert_depth.induct)
  case (1 tree tlv lvl)
  show ?case
  proof (cases "descends tlv lvl tree")
    case True
    from 1 [OF True] True show ?thesis
      by (subst insert_depth.simps)
        (simp add: stays_open_descends stored_level_descends [OF True])
  next
    case False
    then show ?thesis
      using descends_stays_open [of tlv lvl tree] by (subst insert_depth.simps) simp
  qed
qed

lemma spine_snoc: "spine (xs @ [x]) = toc_titleLevel x # spine (toc_children x)"
  by (subst spine.simps) simp

lemma addToTree_spine:
  "spine (addToTree tree info idx lvl)
     = stays_open lvl (stored_level (level info) lvl) (spine tree) @ [stored_level (level info) lvl]"
proof (induction tree info idx lvl rule: addToTree.induct)
  case (1 tree info idx lvl)
  show ?case
  proof (cases "descends (level info) lvl tree")
    case True
    have "spine (addToTree tree info idx lvl)
        = toc_titleLevel (last tree)
          # spine (addToTree (toc_children (last tree)) info idx (lvl + 1))"
      using True by (subst addToTree.simps) (simp add: spine_snoc set_children_def)
    then show ?thesis
      using 1 [OF True] by (simp add: stays_open_descends [OF True] stored_level_descends [OF True])
  next
    case False
    have "spine (addToTree tree info idx lvl) = [stored_level (level info) lvl]"
      using False
      by (subst addToTree.simps) (simp add: spine_snoc stored_level_def, subst spine.simps, simp)
    then show ?thesis using False descends_stays_open [of "level info" lvl tree] by simp
  qed
qed

lemma stored_level_title_level:
  "stored_level (level s) 1 = title_level s" "stored_level (level s) (Suc 0) = title_level s"
  by (simp_all add: stored_level_def title_level_def split: option.splits)

lemma build_spine: "spine (build idx ss) = open_after [] (map title_level ss)"
proof (induction ss rule: rev_induct)
  case Nil
  then show ?case by (subst spine.simps) (simp add: build_def open_after_def)
next
  case (snoc s ss)
  then show ?case
    by (simp add: build_snoc addToTree_spine stored_level_title_level open_after_def)
qed

lemma nested_depths_snoc:
  "nested_depths opened (ts @ [t])
     = nested_depths opened ts @ [Suc (length (stays_open 1 t (open_after opened ts)))]"
  by (induction ts arbitrary: opened) (simp_all add: open_after_def)

lemma build_depths:
  "map toc_level (rows (build idx ss)) = nested_depths [] (map title_level ss)"
proof (induction ss rule: rev_induct)
  case Nil
  then show ?case by (simp add: build_def rows_def flatten_def)
next
  case (snoc s ss)
  have "insert_depth (build idx ss) (level s) 1
      = Suc (length (stays_open 1 (title_level s) (open_after [] (map title_level ss))))"
    by (simp add: insert_depth_stays_open build_spine stored_level_title_level)
  then show ?case
    using snoc by (simp add: build_snoc addToTree_rows nested_depths_snoc new_item_def)
qed

lemma toc_depths_outline_depths: "toc_depths slides idx = outline_depths slides"
  using build_depths [of idx "titled slides"]
  by (simp add: toc_depths_def outline_depths_def tocTree_build rows_def bare_fields comp_def)


lemma stays_open_upto: "stays_open d t [int d..k] = [int d..min k (t - 1)]"
proof (induction "nat (k - int d + 1)" arbitrary: d)
  case 0
  then have "k < int d" by simp
  then show ?case by simp
next
  case (Suc n)
  then have le: "int d \<le> k" by simp
  then have up: "[int d..k] = int d # [int (Suc d)..k]"
    by (simp add: upto_rec1 add.commute)
  from Suc(2) have n: "n = nat (k - int (Suc d) + 1)" by simp
  show ?case
  proof (cases "int d < t")
    case True
    then have "[int d..min k (t - 1)] = int d # [int (Suc d)..min k (t - 1)]"
      using le by (simp add: upto_rec1 add.commute)
    then show ?thesis using True Suc(1) [OF n] by (simp add: up)
  next
    case False
    then show ?thesis by (simp add: up)
  qed
qed

lemma depth_is_level:
  assumes "0 \<le> k"
  shows "(int (Suc (length (stays_open 1 t [1..k]))) = t) = (1 \<le> t \<and> t \<le> k + 1)"
  using assms stays_open_upto [of 1 t k] by auto

lemma nested_depths_rises:
  "0 \<le> k \<Longrightarrow> (map int (nested_depths [1..k] ts) = ts) = rises_by_one k ts"
proof (induction ts arbitrary: k)
  case Nil
  then show ?case by simp
next
  case (Cons t ts)
  show ?case
  proof (cases "1 \<le> t \<and> t \<le> k + 1")
    case True
    then have "stays_open 1 t [1..k] @ [t] = [1..t]"
      using stays_open_upto [of 1 t k] by (simp add: upto_rec2)
    moreover have "0 \<le> t" using True by simp
    ultimately show ?thesis
      using True Cons.IH [of t] depth_is_level [OF Cons.prems, of t] by simp
  next
    case False
    then show ?thesis using depth_is_level [OF Cons.prems, of t] by auto
  qed
qed

lemma outline_depths_well_nested:
  "(map int (outline_depths slides) = map title_level (titled slides)) = well_nested slides"
  using nested_depths_rises [of 0 "map title_level (titled slides)"]
  by (simp add: outline_depths_def well_nested_def)

lemma zip_depths_levels:
  "map int ds = map f ss \<Longrightarrow>
   map (\<lambda>(s, d). g s d) (zip ss ds) = map (\<lambda>s. g s (nat (f s))) ss"
proof (induction ss arbitrary: ds)
  case Nil
  then show ?case by simp
next
  case (Cons s ss)
  then obtain d ds' where ds: "ds = d # ds'" by (cases ds) auto
  with Cons.prems have "int d = f s" "map int ds' = map f ss" by simp_all
  then have "d = nat (f s)" "map (\<lambda>(s, d). g s d) (zip ss ds') = map (\<lambda>s. g s (nat (f s))) ss"
    using Cons.IH by simp_all
  then show ?case by (simp add: ds)
qed

lemma outline_line_claimed: "outline_line s idx (nat (title_level s)) = claimed_line idx s"
  by (simp add: outline_line_def claimed_line_def nat_diff_distrib')

text \<open>
  C2 (as amended). For every deck the outline is the lines of the titled slides, one line
  each and in deck order, joined by line feeds. The line of a slide is
  \<open><page>|<dashes>|<title>\<close>, where the page is \<open>String(slideIndexes[index + 1])\<close> and the
  number of dashes is the nesting depth of the slide minus 1. The nesting depth follows
  from the title levels of the titled slides alone (\<open>outline_depths\<close>): a slide of title
  level \<open>t\<close> stays under the longest initial part of the open titles in which the title at
  depth \<open>j\<close> has \<open>j < t\<close> and a title level below \<open>t\<close>. The depth is the title level for every
  titled slide exactly when the title levels start at 1 and each is at least 1 and at most
  one more than the one before (\<open>well_nested\<close>); on those decks the outline is the claim's,
  with as many dashes as the title level minus 1. In every deck the depth is at least 1 and
  at most the larger of 1 and the title level, and it is the \<open>level\<close> field of the slide's
  item and the depth of the item in the tree.
\<close>

theorem outline_one_line_per_titled_slide:
  "makeOutline (tocTree slides idx)
       = join newline (map (\<lambda>(s, d). outline_line s idx d)
           (zip (titled slides) (outline_depths slides)))
   \<and> length (outline_depths slides) = length (titled slides)
   \<and> (map int (outline_depths slides) = map title_level (titled slides)) = well_nested slides
   \<and> (well_nested slides \<longrightarrow>
        makeOutline (tocTree slides idx) = join newline (map (claimed_line idx) (titled slides)))
   \<and> toc_depths slides idx = outline_depths slides
   \<and> map toc_no (flatten (tocTree slides idx)) = map index (titled slides)
   \<and> list_all (levels_ok 1) (tocTree slides idx)
   \<and> list_all2 (\<lambda>s d. 1 \<le> d \<and> int d \<le> max 1 (title_level s))
       (titled slides) (outline_depths slides)"
proof -
  let ?fl = "flatten (build idx (titled slides))"
  note d = toc_depths_outline_depths [of slides idx]
  have "map toc_title ?fl = map title (titled slides)" by (rule build_facts)
  then have "list_all truthy_str (map toc_title ?fl)"
    by (simp add: titled_def list_all_iff)
  then have "list_all (\<lambda>i. truthy_str (toc_title i)) ?fl"
    by (simp add: list_all_iff)
  then have "makeOutline (build idx (titled slides)) = join newline (map item_line ?fl)"
    by (rule makeOutline_lines)
  then have a: "length (toc_depths slides idx) = length (titled slides)
   \<and> makeOutline (tocTree slides idx)
       = join newline (map (\<lambda>(s, d). outline_line s idx d)
           (zip (titled slides) (toc_depths slides idx)))
   \<and> map toc_no (flatten (tocTree slides idx)) = map index (titled slides)
   \<and> list_all (levels_ok 1) (tocTree slides idx)
   \<and> list_all2 (\<lambda>s d. 1 \<le> d \<and> int d \<le> max 1 (title_level s))
       (titled slides) (toc_depths slides idx)"
    using build_facts [where idx = idx and ss = "titled slides"] build_levels_ok [of idx "titled slides"]
    by (simp add: tocTree_build toc_depths_def)
  have w: "makeOutline (tocTree slides idx) = join newline (map (claimed_line idx) (titled slides))"
    if "well_nested slides"
  proof -
    from that have "map int (outline_depths slides) = map title_level (titled slides)"
      by (simp add: outline_depths_well_nested)
    then have "map (\<lambda>(s, d). outline_line s idx d) (zip (titled slides) (outline_depths slides))
        = map (\<lambda>s. outline_line s idx (nat (title_level s))) (titled slides)"
      by (rule zip_depths_levels)
    then show ?thesis using a by (simp add: d outline_line_claimed)
  qed
  from a w outline_depths_well_nested [of slides] show ?thesis
    unfolding d by blast
qed

theorem outline_one_line_per_titled_slide_witness:
  "well_nested
     [\<lparr>index = 0, title = Some ''A'', level = Some 1, hideInToc = False\<rparr>,
      \<lparr>index = 1, title = Some ''B'', level = Some 2, hideInToc = False\<rparr>,
      \<lparr>index = 2, title = None, level = Some 2, hideInToc = False\<rparr>,
      \<lparr>index = 3, title = Some ''D'', level = Some 3, hideInToc = False\<rparr>,
      \<lparr>index = 4, title = Some ''E'', level = None, hideInToc = True\<rparr>]
   \<and> outline_depths
     [\<lparr>index = 0, title = Some ''A'', level = Some 1, hideInToc = False\<rparr>,
      \<lparr>index = 1, title = Some ''B'', level = Some 2, hideInToc = False\<rparr>,
      \<lparr>index = 2, title = None, level = Some 2, hideInToc = False\<rparr>,
      \<lparr>index = 3, title = Some ''D'', level = Some 3, hideInToc = False\<rparr>,
      \<lparr>index = 4, title = Some ''E'', level = None, hideInToc = True\<rparr>] = [1, 2, 3, 1]
   \<and> makeOutline (tocTree
     [\<lparr>index = 0, title = Some ''A'', level = Some 1, hideInToc = False\<rparr>,
      \<lparr>index = 1, title = Some ''B'', level = Some 2, hideInToc = False\<rparr>,
      \<lparr>index = 2, title = None, level = Some 2, hideInToc = False\<rparr>,
      \<lparr>index = 3, title = Some ''D'', level = Some 3, hideInToc = False\<rparr>,
      \<lparr>index = 4, title = Some ''E'', level = None, hideInToc = True\<rparr>]
     [1 \<mapsto> 1, 2 \<mapsto> 2, 3 \<mapsto> 3, 4 \<mapsto> 14, 5 \<mapsto> 15])
     = ''1||A'' @ newline @ ''2|-|B'' @ newline @ ''14|--|D'' @ newline @ ''15||E''
   \<and> \<not> well_nested
     [\<lparr>index = 0, title = Some ''A'', level = Some 2, hideInToc = False\<rparr>,
      \<lparr>index = 1, title = Some ''B'', level = Some 2, hideInToc = False\<rparr>]
   \<and> makeOutline (tocTree
     [\<lparr>index = 0, title = Some ''A'', level = Some 2, hideInToc = False\<rparr>,
      \<lparr>index = 1, title = Some ''B'', level = Some 2, hideInToc = False\<rparr>]
     [1 \<mapsto> 1, 2 \<mapsto> 2])
     = ''1||A'' @ newline @ ''2||B''"
proof -
  let ?deck =
    "[\<lparr>index = 0, title = Some ''A'', level = Some 1, hideInToc = False\<rparr>,
      \<lparr>index = 1, title = Some ''B'', level = Some 2, hideInToc = False\<rparr>,
      \<lparr>index = 2, title = None, level = Some 2, hideInToc = False\<rparr>,
      \<lparr>index = 3, title = Some ''D'', level = Some 3, hideInToc = False\<rparr>,
      \<lparr>index = 4, title = Some ''E'', level = None, hideInToc = True\<rparr>]"
  let ?idx = "[1 \<mapsto> 1, 2 \<mapsto> 2, 3 \<mapsto> 3, 4 \<mapsto> 14, 5 \<mapsto> (15::nat)]"
  let ?flat =
    "[\<lparr>index = 0, title = Some ''A'', level = Some 2, hideInToc = False\<rparr>,
      \<lparr>index = 1, title = Some ''B'', level = Some 2, hideInToc = False\<rparr>]"
  have e: "well_nested ?deck \<and> outline_depths ?deck = [1, 2, 3, 1]
      \<and> join newline (map (claimed_line ?idx) (titled ?deck))
        = ''1||A'' @ newline @ ''2|-|B'' @ newline @ ''14|--|D'' @ newline @ ''15||E''
      \<and> \<not> well_nested ?flat
      \<and> join newline (map (\<lambda>(s, d). outline_line s [1 \<mapsto> 1, 2 \<mapsto> (2::nat)] d)
           (zip (titled ?flat) (outline_depths ?flat)))
        = ''1||A'' @ newline @ ''2||B''"
    by code_simp
  from outline_one_line_per_titled_slide [of ?deck ?idx]
    outline_one_line_per_titled_slide [of ?flat "[1 \<mapsto> 1, 2 \<mapsto> (2::nat)]"] e
  show ?thesis by metis
qed

text \<open>
  C2 as stated fails: a deck of one slide, titled \<open>A\<close> at title level 3, should give a line
  with two dashes. The slide is put at depth 1 and its line has none.
\<close>

theorem outline_dashes_counterexample:
  "title_level \<lparr>index = 0, title = Some ''A'', level = Some 3, hideInToc = False\<rparr> = 3
   \<and> \<not> well_nested [\<lparr>index = 0, title = Some ''A'', level = Some 3, hideInToc = False\<rparr>]
   \<and> claimed_line [1 \<mapsto> 1] \<lparr>index = 0, title = Some ''A'', level = Some 3, hideInToc = False\<rparr>
     = ''1|--|A''
   \<and> makeOutline (tocTree [\<lparr>index = 0, title = Some ''A'', level = Some 3, hideInToc = False\<rparr>]
         [1 \<mapsto> 1]) = ''1||A''
   \<and> makeOutline (tocTree [\<lparr>index = 0, title = Some ''A'', level = Some 3, hideInToc = False\<rparr>]
         [1 \<mapsto> 1]) \<noteq> ''1|--|A''"
proof -
  have "makeOutline (tocTree [\<lparr>index = 0, title = Some ''A'', level = Some 3, hideInToc = False\<rparr>]
         [1 \<mapsto> 1]) = ''1||A''"
    by code_simp
  moreover have "\<not> well_nested [\<lparr>index = 0, title = Some ''A'', level = Some 3, hideInToc = False\<rparr>]
    \<and> claimed_line [1 \<mapsto> 1] \<lparr>index = 0, title = Some ''A'', level = Some 3, hideInToc = False\<rparr>
     = ''1|--|A''"
    by code_simp
  ultimately show ?thesis by (simp add: title_level_def)
qed

section \<open>Properties of the settle budget\<close>

lemma js_or0_zero_if_unparsable: "js_or0 x = zero_if_unparsable x"
  by (simp add: js_or0_def zero_if_unparsable_def)

lemma parseMs_css_duration_ms: "parseMs pf v = css_duration_ms pf v"
  by (simp add: parseMs_def css_duration_ms_def strip_suffix_def endsWith_def slice_end_def
      js_or0_zero_if_unparsable numeral_2_eq_2)

lemma zero_if_unparsable_not_NaN: "zero_if_unparsable x \<noteq> NaN"
  by (simp add: zero_if_unparsable_def)

lemma js_mul_1000_not_NaN: "x \<noteq> NaN \<Longrightarrow> js_mul x (Fin 1000) \<noteq> NaN"
  by (cases x) auto

lemma css_duration_ms_not_NaN: "css_duration_ms pf v \<noteq> NaN"
  by (auto simp: css_duration_ms_def zero_if_unparsable_not_NaN js_mul_1000_not_NaN
      split: option.splits)

lemma js_max_min_clamp:
  "js_max (Fin 120) (js_min (Fin 3000) x) = js_clamp x (Fin 120) (Fin 3000)"
  by (cases x) (auto simp: js_max_def js_min_def js_clamp_def)

lemma js_clamp_in_range:
  "x \<noteq> NaN \<Longrightarrow> budget_in_range (js_clamp x (Fin 120) (Fin 3000))"
  by (cases x) (auto simp: js_clamp_def budget_in_range_def)

lemma js_add_300_not_NaN: "x \<noteq> NaN \<Longrightarrow> js_add x (Fin 300) \<noteq> NaN"
  by (cases x) auto

text \<open>
  C8. The settle budget is the duration plus 300 ms, clamped to 120 ms and 3000 ms, where
  the duration is the value of \<open>--slidev-transition-duration\<close>, trimmed, and read with an
  \<open>ms\<close> suffix, with an \<open>s\<close> suffix (times 1000) or without a unit, an empty or unparsable
  value counting as 0. The budget is always a finite number from 120 to 3000.
\<close>

theorem settle_budget_clamped:
  "getTransitionSettleBudget pf raw
     = js_clamp (js_add (css_duration_ms pf (trim raw)) (Fin 300)) (Fin 120) (Fin 3000)
   \<and> budget_in_range (getTransitionSettleBudget pf raw)"
proof -
  have eq: "getTransitionSettleBudget pf raw
      = js_clamp (js_add (css_duration_ms pf (trim raw)) (Fin 300)) (Fin 120) (Fin 3000)"
    by (simp add: getTransitionSettleBudget_def js_max_min_clamp parseMs_css_duration_ms)
  have "js_add (css_duration_ms pf (trim raw)) (Fin 300) \<noteq> NaN"
    by (rule js_add_300_not_NaN) (rule css_duration_ms_not_NaN)
  then show ?thesis using eq js_clamp_in_range by simp
qed

theorem settle_budget_clamped_witness:
  "getTransitionSettleBudget (\<lambda>s. if s = ''0.5'' then Fin (1 / 2) else NaN) '' 0.5s '' = Fin 800
   \<and> getTransitionSettleBudget (\<lambda>s. if s = ''0.5'' then Fin (1 / 2) else NaN) ''fast'' = Fin 300
   \<and> getTransitionSettleBudget (\<lambda>s. if s = ''9000'' then Fin 9000 else NaN) ''9000ms'' = Fin 3000
   \<and> getTransitionSettleBudget (\<lambda>s. if s = ''-500'' then Fin (- 500) else NaN) ''-500'' = Fin 120"
proof -
  have e: "getTransitionSettleBudget (\<lambda>s. if s = ''0.5'' then Fin (1 / 2) else NaN) '' 0.5s '' = Fin 800
   \<and> getTransitionSettleBudget (\<lambda>s. if s = ''0.5'' then Fin (1 / 2) else NaN) ''fast'' = Fin 300
   \<and> getTransitionSettleBudget (\<lambda>s. if s = ''9000'' then Fin 9000 else NaN) ''9000ms'' = Fin 3000
   \<and> getTransitionSettleBudget (\<lambda>s. if s = ''-500'' then Fin (- 500) else NaN) ''-500'' = Fin 120"
    by (simp add: getTransitionSettleBudget_def parseMs_def trim_def is_js_space_def endsWith_def
        slice_end_def js_or0_def js_max_def js_min_def)
  from settle_budget_clamped [of "\<lambda>s. if s = ''0.5'' then Fin (1 / 2) else NaN" "'' 0.5s ''"] e
  show ?thesis by blast
qed

section \<open>Properties of the frame schedule\<close>

lemma writeFrame_ok:
  "(\<And>k x. stdin_write e k \<noteq> DrainFailed x) \<Longrightarrow>
   writeFrame e buf s = Ok () (emit (Write buf) (s\<lparr>writes_done := writes_done s + 1\<rparr>))"
  by (cases "stdin_write e (writes_done s)") (auto simp: writeFrame_def)

lemma catchUpLoop_ok:
  assumes w: "\<And>k x. stdin_write e k \<noteq> DrainFailed x"
  shows "d = nat (n - int (writtenFrames s)) \<Longrightarrow>
    catchUpLoop e buf n s =
      Ok () (s\<lparr>writes_done := writes_done s + d, writtenFrames := writtenFrames s + d,
               trace := trace s @ replicate d (Write buf)\<rparr>)"
proof (induction d arbitrary: s)
  case 0
  then show ?case by (subst catchUpLoop.simps) simp
next
  case (Suc d)
  let ?s1 = "(emit (Write buf) (s\<lparr>writes_done := writes_done s + 1\<rparr>))
      \<lparr>writtenFrames := writtenFrames s + 1\<rparr>"
  from Suc.prems have lt: "int (writtenFrames s) < n" by linarith
  have d: "d = nat (n - int (writtenFrames ?s1))"
    using Suc.prems by (simp add: emit_def)
  have "catchUpLoop e buf n s = catchUpLoop e buf n ?s1"
    using lt by (subst catchUpLoop.simps) (simp add: writeFrame_ok [OF w] then_do_def emit_def)
  also have "\<dots> = Ok () (?s1\<lparr>writes_done := writes_done ?s1 + d,
      writtenFrames := writtenFrames ?s1 + d, trace := trace ?s1 @ replicate d (Write buf)\<rparr>)"
    by (rule Suc.IH [OF d])
  finally show ?case by (simp add: emit_def replicate_app_Cons_same)
qed

lemma expectedFrames_floor:
  "max 1 \<lfloor>of_int ((now - startedAt c) * videoFps c) / (1000 :: rat)\<rfloor> = expectedFrames c now"
  by (simp add: expectedFrames_def)

lemma write_counted_ok:
  assumes w: "\<And>k x. stdin_write e k \<noteq> DrainFailed x"
    and clk: "clock s = now # rest"
  shows "write_counted e c frame s =
    Ok () (s\<lparr>clock := rest,
             writes_done := writes_done s + 1 + duplicates c s now,
             writtenFrames := writtenFrames s + 1 + duplicates c s now,
             trace := trace s @ Write frame # replicate (duplicates c s now) (Write frame)\<rparr>)"
proof -
  let ?s1 = "(emit (Write frame) (s\<lparr>writes_done := writes_done s + 1\<rparr>))
      \<lparr>writtenFrames := writtenFrames s + 1\<rparr>"
  let ?s2 = "?s1\<lparr>clock := rest\<rparr>"
  have d: "duplicates c s now = nat (expectedFrames c now - int (writtenFrames ?s2))"
    by (simp add: duplicates_def emit_def)
  have "write_counted e c frame s = catchUpLoop e frame (expectedFrames c now) ?s2"
    using clk
    by (simp add: write_counted_def writeFrame_ok [OF w] then_do_def catchUpFrames_def
        date_now_def emit_def expectedFrames_def)
  also have "\<dots> = Ok () (?s2\<lparr>writes_done := writes_done ?s2 + duplicates c s now,
      writtenFrames := writtenFrames ?s2 + duplicates c s now,
      trace := trace ?s2 @ replicate (duplicates c s now) (Write frame)\<rparr>)"
    by (rule catchUpLoop_ok [OF w d])
  finally show ?thesis by (simp add: emit_def)
qed

text \<open>
  C5 (as amended). A call of \<open>captureAndWriteFrame\<close> whose screenshot succeeds, with an
  encoder that takes every write, reads the clock twice. It writes the frame, computes the
  expected number of frames from the first reading as
  \<open>max(1, floor((now - startedAt) * fps / 1000))\<close>, writes copies of the same frame until
  \<open>writtenFrames\<close> has reached that number, and then sleeps for
  \<open>max(0, (writtenFrames + 1) * (1000 / fps) - elapsed)\<close> ms, the elapsed time being taken
  from the second reading. The initial and the final frame do not go through
  \<open>captureAndWriteFrame\<close>: they are written and caught up in the same way
  (\<open>write_counted\<close>), and no sleep follows.
\<close>

theorem frame_schedule:
  assumes "0 < videoFps c"
    and "screenshot e (shots_taken s) = Inr frame"
    and "\<And>k x. stdin_write e k \<noteq> DrainFailed x"
    and "clock s = now # now' # rest"
  shows "captureAndWriteFrame e c s =
    Ok frame (s\<lparr>clock := rest,
      shots_taken := shots_taken s + 1,
      writes_done := writes_done s + 1 + duplicates c s now,
      writtenFrames := writtenFrames s + 1 + duplicates c s now,
      trace := trace s @ [Shot frame, Write frame] @ replicate (duplicates c s now) (Write frame)
        @ slept (pacing_sleep c (writtenFrames s + 1 + duplicates c s now) now')\<rparr>)
    \<and> int (writtenFrames s + 1 + duplicates c s now)
        = max (int (writtenFrames s) + 1) (expectedFrames c now)
    \<and> write_counted e c frame s =
      Ok () (s\<lparr>clock := now' # rest,
        writes_done := writes_done s + 1 + duplicates c s now,
        writtenFrames := writtenFrames s + 1 + duplicates c s now,
        trace := trace s @ Write frame # replicate (duplicates c s now) (Write frame)\<rparr>)"
proof -
  let ?n = "writtenFrames s + 1 + duplicates c s now"
  let ?s1 = "emit (Shot frame) (s\<lparr>shots_taken := shots_taken s + 1\<rparr>)"
  let ?s2 = "?s1\<lparr>clock := now' # rest,
      writes_done := writes_done ?s1 + 1 + duplicates c s now,
      writtenFrames := writtenFrames ?s1 + 1 + duplicates c s now,
      trace := trace ?s1 @ Write frame # replicate (duplicates c s now) (Write frame)\<rparr>"
  let ?s3 = "?s2\<lparr>clock := rest\<rparr>"
  let ?ms = "of_nat (writtenFrames ?s3 + 1) * frameInterval c - of_int (now' - startedAt c)"
  have c1: "clock ?s1 = now # now' # rest" using assms(4) by (simp add: emit_def)
  have d1: "duplicates c ?s1 now = duplicates c s now" by (simp add: duplicates_def emit_def)
  have cf: "captureFrame e s = Ok frame ?s1"
    using assms(2) by (simp add: captureFrame_def)
  have wc: "write_counted e c frame ?s1 = Ok () ?s2"
    using write_counted_ok [OF assms(3) c1, of c frame] unfolding d1 .
  have dn: "date_now ?s2 = Ok now' ?s3"
    by (simp add: date_now_def)
  have run: "captureAndWriteFrame e c s = Ok frame (if ?ms > 0 then sleep (Fin ?ms) ?s3 else ?s3)"
    unfolding captureAndWriteFrame_def then_do_def cf res.case wc dn ..
  have n3: "writtenFrames ?s3 = ?n" by (simp add: emit_def)
  have ms: "max 0 ?ms = pacing_sleep c ?n now'"
    unfolding n3 by (simp add: pacing_sleep_def frameInterval_def)
  have "(if ?ms > 0 then sleep (Fin ?ms) ?s3 else ?s3)
      = ?s3\<lparr>trace := trace ?s3 @ slept (pacing_sleep c ?n now')\<rparr>"
    unfolding ms [symmetric] by (simp add: sleep_def js_le_def emit_def slept_def max_def)
  also have "\<dots> = s\<lparr>clock := rest,
      shots_taken := shots_taken s + 1,
      writes_done := writes_done s + 1 + duplicates c s now,
      writtenFrames := writtenFrames s + 1 + duplicates c s now,
      trace := trace s @ [Shot frame, Write frame] @ replicate (duplicates c s now) (Write frame)
        @ slept (pacing_sleep c ?n now')\<rparr>"
    by (simp add: emit_def)
  finally have "captureAndWriteFrame e c s = Ok frame (s\<lparr>clock := rest,
      shots_taken := shots_taken s + 1,
      writes_done := writes_done s + 1 + duplicates c s now,
      writtenFrames := writtenFrames s + 1 + duplicates c s now,
      trace := trace s @ [Shot frame, Write frame] @ replicate (duplicates c s now) (Write frame)
        @ slept (pacing_sleep c ?n now')\<rparr>)"
    using run by simp
  moreover have "int (writtenFrames s + 1 + duplicates c s now)
      = max (int (writtenFrames s) + 1) (expectedFrames c now)"
    by (simp add: duplicates_def max_def)
  moreover have "write_counted e c frame s =
      Ok () (s\<lparr>clock := now' # rest,
        writes_done := writes_done s + 1 + duplicates c s now,
        writtenFrames := writtenFrames s + 1 + duplicates c s now,
        trace := trace s @ Write frame # replicate (duplicates c s now) (Write frame)\<rparr>)"
    using write_counted_ok [OF assms(3), of s now "now' # rest" c frame] assms(4) by simp
  ultimately show ?thesis by simp
qed

theorem frame_schedule_witness:
  "captureAndWriteFrame (example_env (\<lambda>k. no_bridge_page)) example_cfg
     ((start [450, 460])\<lparr>writtenFrames := 1\<rparr>)
   = Ok 0 \<lparr>clock = [], shots_taken = 1, writes_done = 12, infos_read = 0, nexts_done = 0,
       budgets_read = 0, settles_done = 0, writtenFrames = 13,
       trace = [Shot 0, Write 0, Write 0, Write 0, Write 0, Write 0, Write 0, Write 0, Write 0,
         Write 0, Write 0, Write 0, Write 0, Sleep (Fin (20 / 3))]\<rparr>
   \<and> expectedFrames example_cfg 450 = 13
   \<and> pacing_sleep example_cfg 13 460 = 20 / 3"
proof -
  let ?e = "example_env (\<lambda>k. no_bridge_page)"
  let ?s = "(start [450, 460])\<lparr>writtenFrames := 1\<rparr>"
  have a: "0 < videoFps example_cfg" by (simp add: example_cfg_def)
  have b: "screenshot ?e (shots_taken ?s) = Inr 0" by (simp add: example_env_def start_def)
  have c: "\<And>k x. stdin_write ?e k \<noteq> DrainFailed x" by (simp add: example_env_def)
  have d: "clock ?s = 450 # 460 # []" by (simp add: start_def)
  have x: "expectedFrames example_cfg 450 = 13" by code_simp
  have y: "pacing_sleep example_cfg 13 460 = 20 / 3" by code_simp
  have z: "duplicates example_cfg ?s 450 = 11" by code_simp
  from frame_schedule [OF a b c d] x y show ?thesis
    unfolding z by (simp add: start_def slept_def numeral_eq_Suc)
qed

text \<open>
  C5 as stated fails at the initial frame. In this run it is written at 10 ms, where the
  pacing would ask for a sleep of \<open>2 * (1000 / 30) - 10 = 170 / 3\<close> ms before the next
  capture: there is no such sleep, the recorder goes on to wait for the step to settle.
\<close>

theorem frame_schedule_counterexample:
  "capture (example_env (\<lambda>k. no_bridge_page)) example_cfg (start [10, 400, 600, 610])
     = Ok ()
        \<lparr>clock = [], shots_taken = 2, writes_done = 18, infos_read = 1, nexts_done = 0,
         budgets_read = 1, settles_done = 1, writtenFrames = 18,
         trace =
           [Shot 0, Write 0, Sleep (Fin 300), WaitForFunction (Fin 2300),
            Shot 1, Write 1, Write 1, Write 1, Write 1, Write 1, Write 1, Write 1, Write 1,
            Write 1, Write 1, Write 1, Write 1, Write 1, Write 1, Write 1, Write 1, Write 1,
            End]\<rparr>
   \<and> pacing_sleep example_cfg 1 10 = 170 / 3"
  by code_simp

section \<open>Properties of the transition wait\<close>

lemma date_now_Ok:
  "date_now s = Ok t s1 \<Longrightarrow> clock s = t # clock s1 \<and> infos_read s1 = infos_read s
     \<and> shots_taken s1 = shots_taken s"
  by (auto simp: date_now_def split: list.splits)

lemma writeFrame_Ok:
  "writeFrame e buf s = Ok u s1 \<Longrightarrow> clock s1 = clock s \<and> infos_read s1 = infos_read s
     \<and> shots_taken s1 = shots_taken s"
  by (auto simp: writeFrame_def emit_def split: write_result.splits)

lemma catchUpLoop_Ok:
  "catchUpLoop e buf n s = Ok u s' \<Longrightarrow> clock s' = clock s \<and> infos_read s' = infos_read s
     \<and> shots_taken s' = shots_taken s"
proof (induction e buf n s rule: catchUpLoop.induct)
  case (1 e buf n s)
  show ?case
  proof (cases "int (writtenFrames s) < n")
    case True
    then obtain v s1 where w: "writeFrame e buf s = Ok v s1"
      and r: "catchUpLoop e buf n (s1\<lparr>writtenFrames := writtenFrames s1 + 1\<rparr>) = Ok u s'"
      using "1.prems" by (subst (asm) catchUpLoop.simps) (auto dest: then_do_Ok)
    from 1(1) [OF True w r] writeFrame_Ok [OF w] show ?thesis by simp
  next
    case False
    then show ?thesis using "1.prems" by (subst (asm) catchUpLoop.simps) simp
  qed
qed

lemma write_counted_Ok:
  assumes "write_counted e c frame s = Ok u s'"
  shows "\<exists>t. clock s = t # clock s'" "infos_read s' = infos_read s" "shots_taken s' = shots_taken s"
proof -
  from assms obtain v s1 now s2 where w: "writeFrame e frame s = Ok v s1"
    and n: "date_now (s1\<lparr>writtenFrames := writtenFrames s1 + 1\<rparr>) = Ok now s2"
    and l: "catchUpLoop e frame
      (max 1 \<lfloor>of_int ((now - startedAt c) * videoFps c) / (1000 :: rat)\<rfloor>) s2 = Ok u s'"
    unfolding write_counted_def catchUpFrames_def by (auto dest!: then_do_Ok)
  from writeFrame_Ok [OF w] date_now_Ok [OF n] catchUpLoop_Ok [OF l]
  show "\<exists>t. clock s = t # clock s'" "infos_read s' = infos_read s"
    "shots_taken s' = shots_taken s"
    by simp_all
qed

lemma captureFrame_Ok:
  "captureFrame e s = Ok b s' \<Longrightarrow> clock s' = clock s \<and> infos_read s' = infos_read s
     \<and> shots_taken s' = shots_taken s + 1"
  by (auto simp: captureFrame_def emit_def split: sum.splits)

lemma sleep_keeps:
  "clock (sleep ms s) = clock s" "infos_read (sleep ms s) = infos_read s"
  "shots_taken (sleep ms s) = shots_taken s"
  by (simp_all add: sleep_def emit_def)

lemma captureAndWriteFrame_Ok:
  assumes "captureAndWriteFrame e c s = Ok b s'"
  shows "\<exists>t t'. clock s = t # t' # clock s'" "infos_read s' = infos_read s"
    "shots_taken s' = shots_taken s + 1"
proof -
  from assms obtain frame s1 v s2 now s3 where f: "captureFrame e s = Ok frame s1"
    and w: "write_counted e c frame s1 = Ok v s2"
    and n: "date_now s2 = Ok now s3"
    and r: "clock s' = clock s3" "infos_read s' = infos_read s3" "shots_taken s' = shots_taken s3"
    unfolding captureAndWriteFrame_def
    by (auto dest!: then_do_Ok simp: sleep_keeps split: if_splits)
  from captureFrame_Ok [OF f] write_counted_Ok [OF w] date_now_Ok [OF n] r
  show "\<exists>t t'. clock s = t # t' # clock s'" "infos_read s' = infos_read s"
    "shots_taken s' = shots_taken s + 1"
    by auto
qed






text \<open>A call comes back, with a value or an error, while the clock has readings left.\<close>

lemma then_do_Stuck:
  "then_do r f = Stuck \<longleftrightarrow> r = Stuck \<or> (\<exists>a s1. r = Ok a s1 \<and> f a s1 = Stuck)"
  by (cases r) (simp_all add: then_do_def)

lemma date_now_returns: "clock s \<noteq> [] \<Longrightarrow> \<exists>t s1. date_now s = Ok t s1"
  by (cases "clock s") (simp_all add: date_now_def)

lemma writeFrame_returns: "writeFrame e buf s \<noteq> Stuck"
  by (simp add: writeFrame_def split: write_result.splits)

lemma captureFrame_returns: "captureFrame e s \<noteq> Stuck"
  by (simp add: captureFrame_def split: sum.splits)


lemma catchUpLoop_returns: "catchUpLoop e buf n s \<noteq> Stuck"
proof (induction e buf n s rule: catchUpLoop.induct)
  case (1 e buf n s)
  show ?case
  proof (cases "int (writtenFrames s) < n")
    case True
    then show ?thesis
      using 1 writeFrame_returns [of e buf s]
      by (subst catchUpLoop.simps) (auto simp: then_do_Stuck)
  next
    case False
    then show ?thesis by (subst catchUpLoop.simps) simp
  qed
qed

lemma write_counted_returns:
  assumes "clock s \<noteq> []"
  shows "write_counted e c frame s \<noteq> Stuck"
proof
  assume "write_counted e c frame s = Stuck"
  then obtain u s1 where w: "writeFrame e frame s = Ok u s1"
    and st: "catchUpFrames e c frame (s1\<lparr>writtenFrames := writtenFrames s1 + 1\<rparr>) = Stuck"
    using writeFrame_returns [of e frame s] by (auto simp: write_counted_def then_do_Stuck)
  from writeFrame_Ok [OF w] assms have "clock (s1\<lparr>writtenFrames := writtenFrames s1 + 1\<rparr>) \<noteq> []"
    by simp
  from date_now_returns [OF this] st show False
    by (auto simp: catchUpFrames_def then_do_Stuck catchUpLoop_returns)
qed

lemma captureAndWriteFrame_returns:
  assumes "2 \<le> length (clock s)"
  shows "captureAndWriteFrame e c s \<noteq> Stuck"
proof
  assume st: "captureAndWriteFrame e c s = Stuck"
  then obtain frame s1 where f: "captureFrame e s = Ok frame s1"
    and r1: "then_do (write_counted e c frame s1) (\<lambda>_ s2.
         then_do (date_now s2) (\<lambda>now s3.
           Ok frame
             (if of_nat (writtenFrames s3 + 1) * frameInterval c - of_int (now - startedAt c) > 0
              then sleep
                (Fin (of_nat (writtenFrames s3 + 1) * frameInterval c - of_int (now - startedAt c))) s3
              else s3))) = Stuck"
    using captureFrame_returns [of e s]
    unfolding captureAndWriteFrame_def then_do_Stuck by blast
  from captureFrame_Ok [OF f] assms have l1: "2 \<le> length (clock s1)" by simp
  then have "clock s1 \<noteq> []" by auto
  from write_counted_returns [OF this, of e c frame] r1
  obtain u s2 where w: "write_counted e c frame s1 = Ok u s2"
    and r2: "then_do (date_now s2) (\<lambda>now s3.
           Ok frame
             (if of_nat (writtenFrames s3 + 1) * frameInterval c - of_int (now - startedAt c) > 0
              then sleep
                (Fin (of_nat (writtenFrames s3 + 1) * frameInterval c - of_int (now - startedAt c))) s3
              else s3)) = Stuck"
    unfolding then_do_Stuck by blast
  from write_counted_Ok(1) [OF w] l1 have "clock s2 \<noteq> []" by auto
  from date_now_returns [OF this] r2 show False
    by (auto simp: then_do_Stuck)
qed























section \<open>Properties of the main loop\<close>

lemma no_step_bridge_info:
  "no_step_bridge w \<Longrightarrow>
   getStepInfo_page w = \<lparr>no = Fin 0, clicks = Fin 0, clicksTotal = Fin 0, hasNext = False\<rparr>"
  by (auto simp: no_step_bridge_def getStepInfo_page_def nav_field_def number_of_def
      boolean_of_def split: option.splits)

lemma clock_passes_split:
  assumes "clock_passes d readings"
  obtains pre post where "readings = pre @ post"
    "list_all (\<lambda>t. \<not> js_lt (Fin (of_int t)) d) post" "3 \<le> length post"
proof
  show "readings = take (length readings - 3) readings @ drop (length readings - 3) readings"
    by simp
  show "list_all (\<lambda>t. \<not> js_lt (Fin (of_int t)) d) (drop (length readings - 3) readings)"
    using assms by (simp add: clock_passes_def)
  show "3 \<le> length (drop (length readings - 3) readings)"
    using assms by (simp add: clock_passes_def)
qed

lemma captureUntil_returns:
  assumes "clock s = pre @ post"
    and "list_all (\<lambda>t. \<not> js_lt (Fin (of_int t)) d) post"
    and "3 \<le> length post \<or> (pre = [] \<and> post \<noteq> [])"
  shows "captureUntil e c d s \<noteq> Stuck"
  using assms
proof (induction e c d s arbitrary: pre post rule: captureUntil.induct)
  case (1 e c d s)
  from "1.prems" have "clock s \<noteq> []" by auto
  from date_now_returns [OF this] obtain now s1 where n: "date_now s = Ok now s1" by blast
  note n' = date_now_Ok [OF n]
  show ?case
  proof (cases "js_lt (Fin (of_int now)) d")
    case False
    then show ?thesis using n by (subst captureUntil.simps) (simp add: then_do_def)
  next
    case True
    have "pre \<noteq> []"
    proof
      assume "pre = []"
      then have "now \<in> set post" using n' "1.prems"(1) by (cases post) auto
      then show False using True "1.prems"(2) by (auto simp: list_all_iff)
    qed
    then obtain pre' where pre: "pre = now # pre'" and c1: "clock s1 = pre' @ post"
      using n' "1.prems"(1) by (cases pre) auto
    from \<open>pre \<noteq> []\<close> "1.prems"(3) have len: "3 \<le> length post" by simp
    then have "2 \<le> length (clock s1)" using c1 by simp
    note live = captureAndWriteFrame_returns [OF this, of e c]
    show ?thesis
    proof
      assume "captureUntil e c d s = Stuck"
      then have "then_do (captureAndWriteFrame e c s1) (\<lambda>_ s2. captureUntil e c d s2) = Stuck"
        using n True by (subst (asm) captureUntil.simps) (simp add: then_do_def)
      then obtain f s2 where f: "captureAndWriteFrame e c s1 = Ok f s2"
        and st: "captureUntil e c d s2 = Stuck"
        using live unfolding then_do_Stuck by blast
      from captureAndWriteFrame_Ok(1) [OF f] obtain t t' where "clock s1 = t # t' # clock s2"
        by blast
      then have "clock s2 = drop 2 (clock s1)" by simp
      then have c2: "clock s2 = drop 2 pre' @ drop (2 - length pre') post"
        using c1 by simp
      have all: "list_all (\<lambda>t. \<not> js_lt (Fin (of_int t)) d) (drop (2 - length pre') post)"
        using "1.prems"(2) by (auto simp: list_all_iff dest: in_set_dropD)
      have "3 \<le> length (drop (2 - length pre') post)
          \<or> (drop 2 pre' = [] \<and> drop (2 - length pre') post \<noteq> [])"
        using len by (cases "2 \<le> length pre'") auto
      from 1(1) [OF n True f c2 all this] st show False by simp
    qed
  qed
qed

lemma captureForDuration_returns:
  assumes "clock s = t # rest" "clock_passes (js_add (Fin (of_int t)) d) rest"
  shows "captureForDuration e c d s \<noteq> Stuck"
proof (cases "js_le d (Fin 0)")
  case True
  then show ?thesis by (simp add: captureForDuration_def)
next
  case False
  have n: "date_now s = Ok t (s\<lparr>clock := rest\<rparr>)"
    using assms(1) by (simp add: date_now_def)
  from assms(2) obtain pre post where "rest = pre @ post"
    "list_all (\<lambda>u. \<not> js_lt (Fin (of_int u)) (js_add (Fin (of_int t)) d)) post" "3 \<le> length post"
    by (rule clock_passes_split)
  then have "captureUntil e c (js_add (Fin (of_int t)) d) (s\<lparr>clock := rest\<rparr>) \<noteq> Stuck"
    by (intro captureUntil_returns [where pre = pre and post = post]) simp_all
  then show ?thesis using False n by (simp add: captureForDuration_def then_do_def)
qed

lemma waitForStepSettled_returns: "waitForStepSettled e s \<noteq> Stuck"
  by (auto simp: waitForStepSettled_def settleBudget_def then_do_def split: sum.splits)

text \<open>
  C10. On a page with neither bridge shape \<open>getStepInfo\<close> answers
  \<open>{no: 0, clicks: 0, clicksTotal: 0, hasNext: false}\<close>. When every reading of the step
  meets such a page, the main loop is one pass: it waits for the step to settle, captures
  for the dwell, reads the step and leaves, with no call of \<open>nextStep()\<close> and no error of
  its own. The pass ends when time goes on until the dwell is over.
\<close>

theorem missing_bridge_one_dwell:
  assumes "\<And>k. page_at_getStepInfo e k = Inr (page k)"
    and "\<And>k. no_step_bridge (page k)"
  shows "getStepInfo_page (page k)
      = \<lparr>no = Fin 0, clicks = Fin 0, clicksTotal = Fin 0, hasNext = False\<rparr>
    \<and> mainLoop e c s =
      then_do (waitForStepSettled e s) (\<lambda>_ s1.
        then_do (captureForDuration e c (Fin (of_int (videoInterval c) * playbackSpeedup c)) s1)
          (\<lambda>_ s2. Ok () (s2\<lparr>infos_read := infos_read s2 + 1\<rparr>)))
    \<and> (clock s = t # rest
         \<and> clock_passes
             (js_add (Fin (of_int t)) (Fin (of_int (videoInterval c) * playbackSpeedup c))) rest
       \<longrightarrow> mainLoop e c s \<noteq> Stuck)"
proof -
  let ?dwell = "Fin (of_int (videoInterval c) * playbackSpeedup c)"
  have g: "\<And>s2. getStepInfo e s2
      = Ok \<lparr>no = Fin 0, clicks = Fin 0, clicksTotal = Fin 0, hasNext = False\<rparr>
          (s2\<lparr>infos_read := infos_read s2 + 1\<rparr>)"
    using assms by (simp add: getStepInfo_def no_step_bridge_info)
  have run: "mainLoop e c s =
      then_do (waitForStepSettled e s) (\<lambda>_ s1.
        then_do (captureForDuration e c ?dwell s1)
          (\<lambda>_ s2. Ok () (s2\<lparr>infos_read := infos_read s2 + 1\<rparr>)))"
    by (subst mainLoop.simps) (simp add: g then_do_def)
  have live: "mainLoop e c s \<noteq> Stuck"
    if c: "clock s = t # rest" and p: "clock_passes (js_add (Fin (of_int t)) ?dwell) rest"
  proof
    assume "mainLoop e c s = Stuck"
    then obtain u s1 where w: "waitForStepSettled e s = Ok u s1"
      and d: "captureForDuration e c ?dwell s1 = Stuck"
      unfolding run then_do_Stuck using waitForStepSettled_returns [of e s] by auto
    from waitForStepSettled_clock [OF w] c have "clock s1 = t # rest" by simp
    from captureForDuration_returns [OF this p] d show False by simp
  qed
  from run live no_step_bridge_info [OF assms(2)] show ?thesis by blast
qed

theorem missing_bridge_one_dwell_witness:
  "mainLoop (example_env (\<lambda>k. no_bridge_page)) example_cfg
       (start [400, 410, 450, 460, 520, 530, 540])
     = Ok ()
        \<lparr>clock = [530, 540], shots_taken = 1, writes_done = 13, infos_read = 1,
         nexts_done = 0, budgets_read = 1, settles_done = 1, writtenFrames = 13,
         trace =
           [Sleep (Fin 300), WaitForFunction (Fin 2300), Shot 0, Write 0,
            Write 0, Write 0, Write 0, Write 0, Write 0, Write 0, Write 0,
            Write 0, Write 0, Write 0, Write 0, Write 0, Sleep (Fin (20 / 3))]\<rparr>
   \<and> capture (example_env (\<lambda>k. no_bridge_page)) example_cfg (start [0, 400, 410, 450, 460, 520, 530])
     = Ok ()
        \<lparr>clock = [], shots_taken = 3, writes_done = 15, infos_read = 1, nexts_done = 0,
         budgets_read = 1, settles_done = 1, writtenFrames = 15,
         trace =
           [Shot 0, Write 0, Sleep (Fin 300), WaitForFunction (Fin 2300),
            Shot 1, Write 1, Write 1, Write 1, Write 1, Write 1, Write 1,
            Write 1, Write 1, Write 1, Write 1, Write 1, Write 1,
            Sleep (Fin (20 / 3)), Shot 2, Write 2, Write 2, End]\<rparr>"
proof -
  let ?e = "example_env (\<lambda>k. no_bridge_page)"
  let ?s = "start [400, 410, 450, 460, 520, 530, 540]"
  have p: "\<And>k. page_at_getStepInfo ?e k = Inr no_bridge_page"
    by (simp add: example_env_def)
  have n: "\<And>k::nat. no_step_bridge no_bridge_page"
    by (simp add: no_step_bridge_def no_bridge_page_def window_nav_def)
  have h: "clock ?s = 400 # [410, 450, 460, 520, 530, 540]
      \<and> clock_passes (js_add (Fin (of_int 400))
            (Fin (of_int (videoInterval example_cfg) * playbackSpeedup example_cfg)))
          [410, 450, 460, 520, 530, 540]"
    by code_simp
  have r: "then_do (waitForStepSettled ?e ?s) (\<lambda>_ s1.
        then_do (captureForDuration ?e example_cfg
            (Fin (of_int (videoInterval example_cfg) * playbackSpeedup example_cfg)) s1)
          (\<lambda>_ s2. Ok () (s2\<lparr>infos_read := infos_read s2 + 1\<rparr>)))
     = Ok ()
        \<lparr>clock = [530, 540], shots_taken = 1, writes_done = 13, infos_read = 1,
         nexts_done = 0, budgets_read = 1, settles_done = 1, writtenFrames = 13,
         trace =
           [Sleep (Fin 300), WaitForFunction (Fin 2300), Shot 0, Write 0,
            Write 0, Write 0, Write 0, Write 0, Write 0, Write 0, Write 0,
            Write 0, Write 0, Write 0, Write 0, Write 0, Sleep (Fin (20 / 3))]\<rparr>"
    by code_simp
  have q: "capture ?e example_cfg (start [0, 400, 410, 450, 460, 520, 530])
     = Ok ()
        \<lparr>clock = [], shots_taken = 3, writes_done = 15, infos_read = 1, nexts_done = 0,
         budgets_read = 1, settles_done = 1, writtenFrames = 15,
         trace =
           [Shot 0, Write 0, Sleep (Fin 300), WaitForFunction (Fin 2300),
            Shot 1, Write 1, Write 1, Write 1, Write 1, Write 1, Write 1,
            Write 1, Write 1, Write 1, Write 1, Write 1, Write 1,
            Sleep (Fin (20 / 3)), Shot 2, Write 2, Write 2, End]\<rparr>"
    by code_simp
  from missing_bridge_one_dwell [of ?e "\<lambda>k. no_bridge_page" _ example_cfg ?s 400
      "[410, 450, 460, 520, 530, 540]", OF p n] h
  have "mainLoop ?e example_cfg ?s =
      then_do (waitForStepSettled ?e ?s) (\<lambda>_ s1.
        then_do (captureForDuration ?e example_cfg
            (Fin (of_int (videoInterval example_cfg) * playbackSpeedup example_cfg)) s1)
          (\<lambda>_ s2. Ok () (s2\<lparr>infos_read := infos_read s2 + 1\<rparr>)))"
    by blast
  with r q show ?thesis by simp
qed

section \<open>Properties of the checks\<close>

lemma js_lt_le_1: "js_isInteger x \<Longrightarrow> js_lt x (Fin a) = (\<not> js_le (Fin a) x)"
  by (cases x) (auto simp: js_isInteger_def js_le_def)

lemma js_lt_le_2: "js_isInteger x \<Longrightarrow> js_lt (Fin a) x = (\<not> js_le x (Fin a))"
  by (cases x) (auto simp: js_isInteger_def js_le_def)

lemma contiguous_message_contains: "contains contiguous_message ''contiguous''"
  by code_simp

text \<open>
  C6 (as amended). When the range is not contiguous, \<open>genPageMp4\<close> throws before anything
  is done: the encoder is neither probed nor spawned and the state is as it was. The error
  is that of the first earlier check that fails (\<open>withClicks\<close>, the fps, the interval, the
  motion scale); when they all pass, its message is the one about the contiguous range.
\<close>

theorem non_contiguous_range_rejected:
  assumes "\<not> isContiguousRange pages"
  shows "genPageMp4 e opts pages s =
      Throw (case earlier_check_error e opts of Some x \<Rightarrow> x | None \<Rightarrow> Error contiguous_message) s
    \<and> contains contiguous_message ''contiguous''"
  using assms contiguous_message_contains
  by (auto simp: genPageMp4_def earlier_check_error_def contiguous_message_def js_lt_le_1
      js_lt_le_2 split: sum.splits)

theorem non_contiguous_range_rejected_witness:
  "\<not> isContiguousRange [1, 3]
   \<and> genPageMp4 (example_env (\<lambda>k. no_bridge_page)) example_opts [1, 3] (start [])
     = Throw (Error contiguous_message) (start [])"
proof -
  have a: "\<not> isContiguousRange [1, 3]" by simp
  have b: "earlier_check_error (example_env (\<lambda>k. no_bridge_page)) example_opts = None"
    by code_simp
  from non_contiguous_range_rejected [OF a, of "example_env (\<lambda>k. no_bridge_page)" example_opts
      "start []"] a
  show ?thesis unfolding b by simp
qed

text \<open>
  C6 as stated fails: with \<open>withClicks = false\<close> and the range \<open>1,3\<close> the export fails on the
  clicks, and the message does not mention the range.
\<close>

theorem non_contiguous_range_counterexample:
  "\<not> isContiguousRange [1, 3]
   \<and> genPageMp4 (example_env (\<lambda>k. no_bridge_page)) (example_opts\<lparr>opt_withClicks := False\<rparr>)
       [1, 3] (start [])
     = Throw (Error
         ''[slidev] MP4 export always includes clicks. Remove --with-clicks=false to continue.'')
         (start [])
   \<and> \<not> contains
       ''[slidev] MP4 export always includes clicks. Remove --with-clicks=false to continue.''
       ''contiguous''"
  by code_simp

section \<open>Properties of the order of the frames\<close>

lemma latest_shot_append: "latest_shot l (xs @ ys) = latest_shot (latest_shot l xs) ys"
  by (induction l xs rule: latest_shot.induct) simp_all

lemma in_capture_order_append:
  "in_capture_order l (xs @ ys) = (in_capture_order l xs \<and> in_capture_order (latest_shot l xs) ys)"
  by (induction l xs rule: in_capture_order.induct) auto

lemma orderly_emit:
  "orderly (emit ev s) = (orderly s \<and> (case ev of Write b \<Rightarrow> shown s = Some b | _ \<Rightarrow> True))"
  by (cases ev) (auto simp: orderly_def shown_def emit_def in_capture_order_append)

lemma shown_emit: "shown (emit ev s) = (case ev of Shot b \<Rightarrow> Some b | _ \<Rightarrow> shown s)"
  by (cases ev) (simp_all add: shown_def emit_def latest_shot_append)

lemma ends_emit: "ends (emit ev s) = (if ev = End then ends s + 1 else ends s)"
  by (simp add: ends_def emit_def)

lemma orderly_fields:
  "orderly (s\<lparr>clock := a\<rparr>) = orderly s"
  "orderly (s\<lparr>shots_taken := n\<rparr>) = orderly s"
  "orderly (s\<lparr>writes_done := n\<rparr>) = orderly s"
  "orderly (s\<lparr>infos_read := n\<rparr>) = orderly s"
  "orderly (s\<lparr>nexts_done := n\<rparr>) = orderly s"
  "orderly (s\<lparr>budgets_read := n\<rparr>) = orderly s"
  "orderly (s\<lparr>settles_done := n\<rparr>) = orderly s"
  "orderly (s\<lparr>writtenFrames := n\<rparr>) = orderly s"
  by (simp_all add: orderly_def)

lemma ends_fields:
  "ends (s\<lparr>clock := a\<rparr>) = ends s"
  "ends (s\<lparr>shots_taken := n\<rparr>) = ends s"
  "ends (s\<lparr>writes_done := n\<rparr>) = ends s"
  "ends (s\<lparr>infos_read := n\<rparr>) = ends s"
  "ends (s\<lparr>nexts_done := n\<rparr>) = ends s"
  "ends (s\<lparr>budgets_read := n\<rparr>) = ends s"
  "ends (s\<lparr>settles_done := n\<rparr>) = ends s"
  "ends (s\<lparr>writtenFrames := n\<rparr>) = ends s"
  by (simp_all add: ends_def)

lemma shown_fields:
  "shown (s\<lparr>clock := a\<rparr>) = shown s"
  "shown (s\<lparr>shots_taken := n\<rparr>) = shown s"
  "shown (s\<lparr>writes_done := n\<rparr>) = shown s"
  "shown (s\<lparr>infos_read := n\<rparr>) = shown s"
  "shown (s\<lparr>nexts_done := n\<rparr>) = shown s"
  "shown (s\<lparr>budgets_read := n\<rparr>) = shown s"
  "shown (s\<lparr>settles_done := n\<rparr>) = shown s"
  "shown (s\<lparr>writtenFrames := n\<rparr>) = shown s"
  by (simp_all add: shown_def)

lemmas order_simps = keeps_def orderly_emit shown_emit ends_emit orderly_fields ends_fields
  shown_fields final_def

lemma keeps_refl: "keeps s s"
  by (simp add: keeps_def)

lemma keeps_trans: "keeps s s1 \<Longrightarrow> keeps s1 s' \<Longrightarrow> keeps s s'"
  by (simp add: keeps_def)

lemma final_then_do:
  assumes "final (then_do r f) = Some s'"
  obtains (thrown) x where "r = Throw x s'"
  | (returned) a s1 where "r = Ok a s1" "final (f a s1) = Some s'"
  using assms by (cases r) (auto simp: then_do_def final_def)

lemma final_Ok: "final (Ok x s) = Some s"
  by (simp add: final_def)

lemma date_now_keeps: "final (date_now s) = Some s' \<Longrightarrow> keeps s s' \<and> shown s' = shown s"
  by (auto simp: date_now_def order_simps split: list.splits)

lemma sleep_order: "keeps s (sleep ms s) \<and> shown (sleep ms s) = shown s"
  by (simp add: sleep_def order_simps)

lemma getStepInfo_keeps: "final (getStepInfo e s) = Some s' \<Longrightarrow> keeps s s'"
  by (auto simp: getStepInfo_def order_simps split: sum.splits)

lemma nextStep_keeps: "final (nextStep e s) = Some s' \<Longrightarrow> keeps s s'"
  by (auto simp: nextStep_def order_simps split: sum.splits)

lemma settleBudget_keeps: "final (settleBudget e s) = Some s' \<Longrightarrow> keeps s s'"
  by (auto simp: settleBudget_def order_simps split: sum.splits)

lemma waitForStepSettled_keeps:
  assumes "final (waitForStepSettled e s) = Some s'"
  shows "keeps s s'"
  using assms unfolding waitForStepSettled_def
proof (cases rule: final_then_do)
  case (thrown x)
  then show ?thesis using settleBudget_keeps [of e s s'] by (simp add: final_def)
next
  case (returned budget s1)
  from returned(1) have k: "keeps s s1" using settleBudget_keeps [of e s s1] by (simp add: final_def)
  have "keeps s1 s'"
    using returned(2) by (auto simp: sleep_def order_simps split: sum.splits)
  with k show ?thesis by (rule keeps_trans)
qed

lemma writeFrame_order:
  "shown s = Some buf \<Longrightarrow> final (writeFrame e buf s) = Some s' \<Longrightarrow>
   keeps s s' \<and> shown s' = Some buf"
  by (auto simp: writeFrame_def order_simps split: write_result.splits)

lemma captureFrame_Throw_keeps: "captureFrame e s = Throw x s' \<Longrightarrow> keeps s s'"
  by (auto simp: captureFrame_def order_simps split: sum.splits)

lemma captureFrame_Ok_keeps: "captureFrame e s = Ok b s' \<Longrightarrow> keeps s s' \<and> shown s' = Some b"
  by (auto simp: captureFrame_def order_simps split: sum.splits)

lemma catchUpLoop_order:
  "shown s = Some buf \<Longrightarrow> final (catchUpLoop e buf n s) = Some s' \<Longrightarrow>
   keeps s s' \<and> shown s' = Some buf"
proof (induction e buf n s rule: catchUpLoop.induct)
  case (1 e buf n s)
  show ?case
  proof (cases "int (writtenFrames s) < n")
    case False
    then show ?thesis using "1.prems" by (subst (asm) catchUpLoop.simps) (simp add: order_simps)
  next
    case True
    then have f: "final (then_do (writeFrame e buf s) (\<lambda>_ s1.
             catchUpLoop e buf n (s1\<lparr>writtenFrames := writtenFrames s1 + 1\<rparr>))) = Some s'"
      using "1.prems"(2) by (subst (asm) catchUpLoop.simps) simp
    from f show ?thesis
    proof (cases rule: final_then_do)
      case (thrown x)
      then show ?thesis using writeFrame_order [OF "1.prems"(1), of e s'] by (simp add: final_def)
    next
      case (returned a s1)
      from writeFrame_order [OF "1.prems"(1), of e s1] returned(1)
      have k: "keeps s s1" and sh: "shown s1 = Some buf" by (simp_all add: final_def)
      from sh have sh': "shown (s1\<lparr>writtenFrames := writtenFrames s1 + 1\<rparr>) = Some buf"
        by (simp add: shown_fields)
      from 1(1) [OF True returned(1) sh' returned(2)]
      have "keeps (s1\<lparr>writtenFrames := writtenFrames s1 + 1\<rparr>) s'" and r: "shown s' = Some buf"
        by simp_all
      then have "keeps s1 s'" by (simp add: keeps_def orderly_fields ends_fields)
      with k r show ?thesis by (auto intro: keeps_trans)
    qed
  qed
qed

lemma write_counted_order:
  assumes "shown s = Some frame" "final (write_counted e c frame s) = Some s'"
  shows "keeps s s' \<and> shown s' = Some frame"
  using assms(2) unfolding write_counted_def
proof (cases rule: final_then_do)
  case (thrown x)
  then show ?thesis using writeFrame_order [OF assms(1), of e s'] by (simp add: final_def)
next
  case (returned a s1)
  from writeFrame_order [OF assms(1), of e s1] returned(1)
  have k: "keeps s s1" and sh: "shown s1 = Some frame" by (simp_all add: final_def)
  let ?s1 = "s1\<lparr>writtenFrames := writtenFrames s1 + 1\<rparr>"
  have k1: "keeps s ?s1" and sh1: "shown ?s1 = Some frame"
    using k sh by (simp_all add: keeps_def orderly_fields ends_fields shown_fields)
  from returned(2) show ?thesis unfolding catchUpFrames_def
  proof (cases rule: final_then_do)
    case (thrown x)
    then show ?thesis by (simp add: date_now_def split: list.splits)
  next
    case (returned now s2)
    from date_now_keeps [of ?s1 s2] returned(1)
    have k2: "keeps ?s1 s2" and sh2: "shown s2 = Some frame" using sh1 by (simp_all add: final_def)
    from catchUpLoop_order [OF sh2 returned(2)] k1 k2 show ?thesis
      by (auto intro: keeps_trans)
  qed
qed

lemma captureAndWriteFrame_keeps:
  assumes "final (captureAndWriteFrame e c s) = Some s'"
  shows "keeps s s'"
  using assms unfolding captureAndWriteFrame_def
proof (cases rule: final_then_do)
  case (thrown x)
  then show ?thesis by (rule captureFrame_Throw_keeps)
next
  case (returned frame s1)
  from captureFrame_Ok_keeps [OF returned(1)]
  have k1: "keeps s s1" and sh1: "shown s1 = Some frame" by simp_all
  from returned(2) show ?thesis
  proof (cases rule: final_then_do)
    case (thrown x)
    then have "final (write_counted e c frame s1) = Some s'" by (simp add: final_def)
    from write_counted_order [OF sh1 this] k1 show ?thesis by (auto intro: keeps_trans)
  next
    case (returned u s2)
    then have "final (write_counted e c frame s1) = Some s2" by (simp add: final_def)
    from write_counted_order [OF sh1 this] k1 have k2: "keeps s s2" by (auto intro: keeps_trans)
    from returned(2) show ?thesis
    proof (cases rule: final_then_do)
      case (thrown x)
      then show ?thesis by (simp add: date_now_def split: list.splits)
    next
      case (returned now s3)
      from date_now_keeps [of s2 s3] returned(1) have k3: "keeps s2 s3" by (simp add: final_def)
      have "keeps s3 s'"
        using returned(2) sleep_order [of s3] by (auto simp: final_def keeps_refl split: if_splits)
      with k2 k3 show ?thesis by (blast intro: keeps_trans)
    qed
  qed
qed


lemma final_date_now_Throw: "date_now s \<noteq> Throw x s'"
  by (simp add: date_now_def split: list.splits)

lemma captureUntil_keeps: "final (captureUntil e c d s) = Some s' \<Longrightarrow> keeps s s'"
proof (induction e c d s rule: captureUntil.induct)
  case (1 e c d s)
  from "1.prems" have "final (then_do (date_now s) (\<lambda>now s1.
       if js_lt (Fin (of_int now)) d
       then then_do (captureAndWriteFrame e c s1) (\<lambda>_ s2. captureUntil e c d s2)
       else Ok () s1)) = Some s'"
    by (subst (asm) captureUntil.simps) simp
  then show ?case
  proof (cases rule: final_then_do)
    case (thrown x)
    then show ?thesis by (simp add: final_date_now_Throw)
  next
    case (returned now s1)
    from date_now_keeps [of s s1] returned(1) have k1: "keeps s s1" by (simp add: final_def)
    show ?thesis
    proof (cases "js_lt (Fin (of_int now)) d")
      case False
      then show ?thesis using returned(2) k1 by (simp add: final_def)
    next
      case True
      then have "final (then_do (captureAndWriteFrame e c s1) (\<lambda>_ s2. captureUntil e c d s2))
          = Some s'"
        using returned(2) by simp
      then show ?thesis
      proof (cases rule: final_then_do)
        case (thrown x)
        then have "final (captureAndWriteFrame e c s1) = Some s'" by (simp add: final_def)
        from captureAndWriteFrame_keeps [OF this] k1 show ?thesis by (blast intro: keeps_trans)
      next
        case inner: (returned b s2)
        then have "final (captureAndWriteFrame e c s1) = Some s2" by (simp add: final_def)
        from captureAndWriteFrame_keeps [OF this] have k2: "keeps s1 s2" .
        from 1(1) [OF returned(1) True inner(1) inner(2)] have "keeps s2 s'" .
        with k1 k2 show ?thesis by (blast intro: keeps_trans)
      qed
    qed
  qed
qed

lemma captureForDuration_keeps:
  assumes "final (captureForDuration e c d s) = Some s'"
  shows "keeps s s'"
proof (cases "js_le d (Fin 0)")
  case True
  then show ?thesis using assms by (simp add: captureForDuration_def final_def keeps_refl)
next
  case False
  then have "final (then_do (date_now s) (\<lambda>now s1.
      captureUntil e c (js_add (Fin (of_int now)) d) s1)) = Some s'"
    using assms by (simp add: captureForDuration_def)
  then show ?thesis
  proof (cases rule: final_then_do)
    case (thrown x)
    then show ?thesis by (simp add: final_date_now_Throw)
  next
    case (returned now s1)
    from date_now_keeps [of s s1] returned(1) have "keeps s s1" by (simp add: final_def)
    with captureUntil_keeps [OF returned(2)] show ?thesis by (blast intro: keeps_trans)
  qed
qed

lemma transitionWait_keeps: "final (transitionWait e c k d s) = Some s' \<Longrightarrow> keeps s s'"
proof (induction e c k d s rule: transitionWait.induct)
  case (1 e c k d s)
  from "1.prems" have "final (then_do (date_now s) (\<lambda>now s1.
       if js_lt (Fin (of_int now)) d
       then then_do (captureAndWriteFrame e c s1) (\<lambda>_ s2.
              then_do (getStepInfo e s2) (\<lambda>current s3.
                if getStepKey e current \<noteq> k then Ok True s3
                else transitionWait e c k d s3))
       else Ok False s1)) = Some s'"
    by (subst (asm) transitionWait.simps) simp
  then show ?case
  proof (cases rule: final_then_do)
    case (thrown x)
    then show ?thesis by (simp add: final_date_now_Throw)
  next
    case (returned now s1)
    from date_now_keeps [of s s1] returned(1) have k1: "keeps s s1" by (simp add: final_def)
    show ?thesis
    proof (cases "js_lt (Fin (of_int now)) d")
      case False
      then show ?thesis using returned(2) k1 by (simp add: final_def)
    next
      case True
      then have "final (then_do (captureAndWriteFrame e c s1) (\<lambda>_ s2.
              then_do (getStepInfo e s2) (\<lambda>current s3.
                if getStepKey e current \<noteq> k then Ok True s3
                else transitionWait e c k d s3))) = Some s'"
        using returned(2) by simp
      then show ?thesis
      proof (cases rule: final_then_do)
        case (thrown x)
        then have "final (captureAndWriteFrame e c s1) = Some s'" by (simp add: final_def)
        from captureAndWriteFrame_keeps [OF this] k1 show ?thesis by (blast intro: keeps_trans)
      next
        case shot: (returned b s2)
        then have "final (captureAndWriteFrame e c s1) = Some s2" by (simp add: final_def)
        from captureAndWriteFrame_keeps [OF this] k1 have k2: "keeps s s2"
          by (blast intro: keeps_trans)
        from shot(2) show ?thesis
        proof (cases rule: final_then_do)
          case (thrown x)
          then have "final (getStepInfo e s2) = Some s'" by (simp add: final_def)
          from getStepInfo_keeps [OF this] k2 show ?thesis by (blast intro: keeps_trans)
        next
          case info: (returned cur s3)
          then have "final (getStepInfo e s2) = Some s3" by (simp add: final_def)
          from getStepInfo_keeps [OF this] k2 have k3: "keeps s s3" by (blast intro: keeps_trans)
          show ?thesis
          proof (cases "getStepKey e cur \<noteq> k")
            case True
            then show ?thesis using info(2) k3 by (simp add: final_def)
          next
            case False
            then have "final (transitionWait e c k d s3) = Some s'" using info(2) by simp
            from 1(1) [OF returned(1) True shot(1) info(1) _ this] False
            have "keeps s3 s'" by simp
            with k3 show ?thesis by (blast intro: keeps_trans)
          qed
        qed
      qed
    qed
  qed
qed

lemma advanceStep_keeps:
  assumes "final (advanceStep e c step s) = Some s'"
  shows "keeps s s'"
  using assms unfolding advanceStep_def
proof (cases rule: final_then_do)
  case (thrown x)
  then have "final (nextStep e s) = Some s'" by (simp add: final_def)
  then show ?thesis by (rule nextStep_keeps)
next
  case (returned advanced s1)
  then have "final (nextStep e s) = Some s1" by (simp add: final_def)
  then have k1: "keeps s s1" by (rule nextStep_keeps)
  show ?thesis
  proof (cases advanced)
    case False
    then show ?thesis using returned(2) k1 by (simp add: final_def)
  next
    case True
    then have "final (then_do (date_now s1) (\<lambda>now s2.
         then_do (transitionWait e c (getStepKey e step)
             (js_add (Fin (of_int now)) (js_min (Fin 10000) (js_max (Fin 2000) (timeout c)))) s2)
           (\<lambda>changed s3.
             if \<not> changed
             then Throw (Error (''[slidev] Failed to advance from step '' @ getStepKey e step)) s3
             else then_do (settleBudget e s3) (\<lambda>transitionBudget s4.
                    captureForDuration e c transitionBudget s4)))) = Some s'"
      using returned(2) by simp
    then show ?thesis
    proof (cases rule: final_then_do)
      case (thrown x)
      then show ?thesis by (simp add: final_date_now_Throw)
    next
      case clock: (returned now s2)
      from date_now_keeps [of s1 s2] clock(1) k1 have k2: "keeps s s2"
        by (auto simp: final_def intro: keeps_trans)
      from clock(2) show ?thesis
      proof (cases rule: final_then_do)
        case (thrown x)
        then have "final (transitionWait e c (getStepKey e step)
             (js_add (Fin (of_int now)) (js_min (Fin 10000) (js_max (Fin 2000) (timeout c)))) s2)
            = Some s'"
          by (simp add: final_def)
        from transitionWait_keeps [OF this] k2 show ?thesis by (blast intro: keeps_trans)
      next
        case wait: (returned changed s3)
        then have "final (transitionWait e c (getStepKey e step)
             (js_add (Fin (of_int now)) (js_min (Fin 10000) (js_max (Fin 2000) (timeout c)))) s2)
            = Some s3"
          by (simp add: final_def)
        from transitionWait_keeps [OF this] k2 have k3: "keeps s s3" by (blast intro: keeps_trans)
        show ?thesis
        proof (cases changed)
          case False
          then show ?thesis using wait(2) k3 by (simp add: final_def)
        next
          case True
          then have "final (then_do (settleBudget e s3) (\<lambda>transitionBudget s4.
                    captureForDuration e c transitionBudget s4)) = Some s'"
            using wait(2) by simp
          then show ?thesis
          proof (cases rule: final_then_do)
            case (thrown x)
            then have "final (settleBudget e s3) = Some s'" by (simp add: final_def)
            from settleBudget_keeps [OF this] k3 show ?thesis by (blast intro: keeps_trans)
          next
            case budget: (returned b s4)
            then have "final (settleBudget e s3) = Some s4" by (simp add: final_def)
            from settleBudget_keeps [OF this] k3 have "keeps s s4" by (blast intro: keeps_trans)
            with captureForDuration_keeps [OF budget(2)] show ?thesis
              by (blast intro: keeps_trans)
          qed
        qed
      qed
    qed
  qed
qed

lemma mainLoop_keeps: "final (mainLoop e c s) = Some s' \<Longrightarrow> keeps s s'"
proof (induction e c s rule: mainLoop.induct)
  case (1 e c s)
  from "1.prems" have "final (then_do (waitForStepSettled e s) (\<lambda>_ s1.
       then_do (captureForDuration e c
           (Fin (of_int (videoInterval c) * playbackSpeedup c)) s1) (\<lambda>_ s2.
         then_do (getStepInfo e s2) (\<lambda>step s3.
           if \<not> hasNext step \<or> \<not> canAdvanceInRange c step then Ok () s3
           else then_do (advanceStep e c step s3) (\<lambda>_ s4. mainLoop e c s4))))) = Some s'"
    by (subst (asm) mainLoop.simps) simp
  then show ?case
  proof (cases rule: final_then_do)
    case (thrown x)
    then have "final (waitForStepSettled e s) = Some s'" by (simp add: final_def)
    then show ?thesis by (rule waitForStepSettled_keeps)
  next
    case settled: (returned u s1)
    then have "final (waitForStepSettled e s) = Some s1" by (simp add: final_def)
    then have k1: "keeps s s1" by (rule waitForStepSettled_keeps)
    from settled(2) show ?thesis
    proof (cases rule: final_then_do)
      case (thrown x)
      then have "final (captureForDuration e c
           (Fin (of_int (videoInterval c) * playbackSpeedup c)) s1) = Some s'"
        by (simp add: final_def)
      from captureForDuration_keeps [OF this] k1 show ?thesis by (blast intro: keeps_trans)
    next
      case dwell: (returned v s2)
      then have "final (captureForDuration e c
           (Fin (of_int (videoInterval c) * playbackSpeedup c)) s1) = Some s2"
        by (simp add: final_def)
      from captureForDuration_keeps [OF this] k1 have k2: "keeps s s2"
        by (blast intro: keeps_trans)
      from dwell(2) show ?thesis
      proof (cases rule: final_then_do)
        case (thrown x)
        then have "final (getStepInfo e s2) = Some s'" by (simp add: final_def)
        from getStepInfo_keeps [OF this] k2 show ?thesis by (blast intro: keeps_trans)
      next
        case info: (returned step s3)
        then have "final (getStepInfo e s2) = Some s3" by (simp add: final_def)
        from getStepInfo_keeps [OF this] k2 have k3: "keeps s s3" by (blast intro: keeps_trans)
        show ?thesis
        proof (cases "\<not> hasNext step \<or> \<not> canAdvanceInRange c step")
          case True
          then show ?thesis using info(2) k3 by (auto simp: final_def)
        next
          case False
          then have "final (then_do (advanceStep e c step s3) (\<lambda>_ s4. mainLoop e c s4)) = Some s'"
            using info(2) by simp
          then show ?thesis
          proof (cases rule: final_then_do)
            case (thrown x)
            then have "final (advanceStep e c step s3) = Some s'" by (simp add: final_def)
            from advanceStep_keeps [OF this] k3 show ?thesis by (blast intro: keeps_trans)
          next
            case adv: (returned w s4)
            then have "final (advanceStep e c step s3) = Some s4" by (simp add: final_def)
            from advanceStep_keeps [OF this] k3 have k4: "keeps s s4"
              by (blast intro: keeps_trans)
            from 1(1) [OF settled(1) dwell(1) info(1) False adv(1) adv(2)] k4
            show ?thesis by (blast intro: keeps_trans)
          qed
        qed
      qed
    qed
  qed
qed


lemma captureAll_closings:
  assumes "final (captureAll e c s) = Some s'"
  shows "(orderly s \<longrightarrow> orderly s')
    \<and> (case captureAll e c s of
         Ok _ _ \<Rightarrow> ends s' = ends s + 1
       | Throw x _ \<Rightarrow> ends s' = ends s \<or> (ends s' = ends s + 1 \<and> ffmpegDone e = Inl x)
       | Stuck \<Rightarrow> False)"
proof -
  have early: "keeps s s' \<Longrightarrow> captureAll e c s = Throw x s' \<Longrightarrow> ?thesis" for x
    by (simp add: keeps_def)
  note d = captureAll_def then_do_def
  from assms have "final (then_do (captureFrame e s) (\<lambda>initialFrame s1.
       then_do (write_counted e c initialFrame s1) (\<lambda>_ s2.
         then_do (mainLoop e c s2) (\<lambda>_ s3.
           then_do (captureFrame e s3) (\<lambda>lastFrame s4.
             then_do (write_counted e c lastFrame s4) (\<lambda>_ s5.
               (case ffmpegDone e of
                  Inl x \<Rightarrow> Throw x (emit End s5)
                | Inr _ \<Rightarrow> Ok () (emit End s5)))))))) = Some s'"
    by (simp add: captureAll_def)
  then show ?thesis
  proof (cases rule: final_then_do)
    case (thrown x)
    from captureFrame_Throw_keeps [OF thrown] thrown show ?thesis
      by (intro early [of x]) (simp_all add: d)
  next
    case first: (returned f0 s1)
    from captureFrame_Ok_keeps [OF first(1)] have k1: "keeps s s1" and sh1: "shown s1 = Some f0"
      by simp_all
    from first(2) show ?thesis
    proof (cases rule: final_then_do)
      case (thrown x)
      then have "final (write_counted e c f0 s1) = Some s'" by (simp add: final_def)
      from write_counted_order [OF sh1 this] k1 have "keeps s s'" by (blast intro: keeps_trans)
      then show ?thesis using first(1) thrown by (intro early [of x]) (simp_all add: d)
    next
      case w0: (returned u s2)
      then have "final (write_counted e c f0 s1) = Some s2" by (simp add: final_def)
      from write_counted_order [OF sh1 this] k1 have k2: "keeps s s2" by (blast intro: keeps_trans)
      from w0(2) show ?thesis
      proof (cases rule: final_then_do)
        case (thrown x)
        then have "final (mainLoop e c s2) = Some s'" by (simp add: final_def)
        from mainLoop_keeps [OF this] k2 have "keeps s s'" by (blast intro: keeps_trans)
        then show ?thesis using first(1) w0(1) thrown by (intro early [of x]) (simp_all add: d)
      next
        case loop: (returned v s3)
        then have "final (mainLoop e c s2) = Some s3" by (simp add: final_def)
        from mainLoop_keeps [OF this] k2 have k3: "keeps s s3" by (blast intro: keeps_trans)
        from loop(2) show ?thesis
        proof (cases rule: final_then_do)
          case (thrown x)
          from captureFrame_Throw_keeps [OF thrown] k3 have "keeps s s'"
            by (blast intro: keeps_trans)
          then show ?thesis using first(1) w0(1) loop(1) thrown
            by (intro early [of x]) (simp_all add: d)
        next
          case last: (returned f1 s4)
          from captureFrame_Ok_keeps [OF last(1)] k3
          have k4: "keeps s s4" and sh4: "shown s4 = Some f1" by (auto intro: keeps_trans)
          from last(2) show ?thesis
          proof (cases rule: final_then_do)
            case (thrown x)
            then have "final (write_counted e c f1 s4) = Some s'" by (simp add: final_def)
            from write_counted_order [OF sh4 this] k4 have "keeps s s'"
              by (blast intro: keeps_trans)
            then show ?thesis using first(1) w0(1) loop(1) last(1) thrown
              by (intro early [of x]) (simp_all add: d)
          next
            case w1: (returned w s5)
            then have "final (write_counted e c f1 s4) = Some s5" by (simp add: final_def)
            from write_counted_order [OF sh4 this] k4 have k5: "keeps s s5"
              by (blast intro: keeps_trans)
            have all: "captureAll e c s = (case ffmpegDone e of
                  Inl x \<Rightarrow> Throw x (emit End s5)
                | Inr _ \<Rightarrow> Ok () (emit End s5))"
              using first(1) w0(1) loop(1) last(1) w1(1) by (simp add: d)
            from w1(2) have s': "s' = emit End s5"
              by (auto simp: final_def split: sum.splits)
            show ?thesis
              using k5 unfolding all s'
              by (auto simp: keeps_def orderly_emit ends_emit split: sum.splits)
          qed
        qed
      qed
    qed
  qed
qed

lemma capture_closings:
  assumes "final (capture e c s) = Some s'"
  shows "(orderly s \<longrightarrow> orderly s')
    \<and> (case capture e c s of
         Ok _ _ \<Rightarrow> ends s' = ends s + 1
       | Throw x _ \<Rightarrow> ends s' = ends s + 1 \<or> (ends s' = ends s + 2 \<and> ffmpegDone e = Inl x)
       | Stuck \<Rightarrow> False)"
proof (cases "captureAll e c s")
  case (Ok u s1)
  then have "final (captureAll e c s) = Some s1" by (simp add: final_def)
  from captureAll_closings [OF this] Ok assms show ?thesis
    by (simp add: capture_def final_def)
next
  case (Throw x s1)
  then have "final (captureAll e c s) = Some s1" by (simp add: final_def)
  from captureAll_closings [OF this] Throw assms show ?thesis
    by (auto simp: capture_def final_def orderly_emit ends_emit)
next
  case Stuck
  then show ?thesis using assms by (simp add: capture_def final_def)
qed


lemma waitForFfmpeg_keeps: "final (waitForFfmpeg e s) = Some s' \<Longrightarrow> keeps s s'"
  by (auto simp: waitForFfmpeg_def order_simps split: if_splits)

lemma settle_keeps: "final (settle r s) = Some s' \<Longrightarrow> s' = s"
  by (auto simp: settle_def final_def split: sum.splits)

lemma goPlay_keeps:
  assumes "final (goPlay e n s) = Some s'"
  shows "keeps s s'"
proof (cases "navigation e")
  case (Inl x)
  then show ?thesis using assms by (auto simp: goPlay_def order_simps)
next
  case (Inr u)
  then have "final (waitForStepSettled e (emit (Navigate n) s)) = Some s'"
    using assms by (simp add: goPlay_def)
  from waitForStepSettled_keeps [OF this] show ?thesis
    by (simp add: keeps_def orderly_emit ends_emit)
qed

lemma setup_keeps:
  assumes run: "run = then_do (waitForFfmpeg e s) (\<lambda>_ s1.
       then_do (goPlay e n s1) (\<lambda>_ s2.
       then_do (if js_lt (Fin 1) motionScale then settle (motion_applied e) s2 else Ok () s2)
         (\<lambda>_ s3.
       then_do (settle (target_ready e) (emit (Spawn args) s3)) (\<lambda>_ s4.
       then_do (settle (clip_measured e) s4) (\<lambda>_ s5.
       then_do (date_now s5) (\<lambda>now s6. capture e (cfg now) s6))))))"
    and fin: "final run = Some s'"
  shows "(orderly s \<longrightarrow> orderly s')
    \<and> (case run of
         Ok _ _ \<Rightarrow> ends s' = ends s + 1
       | Throw x _ \<Rightarrow> ends s' \<le> ends s + 2
       | Stuck \<Rightarrow> False)"
proof -
  have early: "keeps s s' \<Longrightarrow> run = Throw x s' \<Longrightarrow> ?thesis" for x
    by (simp add: keeps_def)
  from fin [unfolded run] show ?thesis
  proof (cases rule: final_then_do)
    case (thrown x)
    then have "final (waitForFfmpeg e s) = Some s'" by (simp add: final_def)
    from waitForFfmpeg_keeps [OF this] thrown show ?thesis
      by (intro early [of x]) (simp_all add: run then_do_def)
  next
    case probe: (returned u1 s1)
    then have "final (waitForFfmpeg e s) = Some s1" by (simp add: final_def)
    then have k1: "keeps s s1" by (rule waitForFfmpeg_keeps)
    from probe(2) show ?thesis
    proof (cases rule: final_then_do)
      case (thrown x)
      then have "final (goPlay e n s1) = Some s'" by (simp add: final_def)
      from goPlay_keeps [OF this] k1 have "keeps s s'" by (blast intro: keeps_trans)
      then show ?thesis using probe(1) thrown by (intro early [of x]) (simp_all add: run then_do_def)
    next
      case play: (returned u2 s2)
      then have "final (goPlay e n s1) = Some s2" by (simp add: final_def)
      from goPlay_keeps [OF this] k1 have k2: "keeps s s2" by (blast intro: keeps_trans)
      from play(2) show ?thesis
      proof (cases rule: final_then_do)
        case (thrown x)
        then have "final (if js_lt (Fin 1) motionScale then settle (motion_applied e) s2
            else Ok () s2) = Some s'"
          by (simp add: final_def)
        then have "s' = s2"
          by (cases "js_lt (Fin 1) motionScale") (auto dest: settle_keeps simp: final_Ok)
        with k2 have "keeps s s'" by simp
        then show ?thesis using probe(1) play(1) thrown
          by (intro early [of x]) (simp_all add: run then_do_def)
      next
        case motion: (returned u3 s3)
        then have "final (if js_lt (Fin 1) motionScale then settle (motion_applied e) s2
            else Ok () s2) = Some s3"
          by (simp add: final_def)
        then have "s3 = s2"
          by (cases "js_lt (Fin 1) motionScale") (auto dest: settle_keeps simp: final_Ok)
        with k2 have k3: "keeps s (emit (Spawn args) s3)"
          by (simp add: keeps_def orderly_emit ends_emit)
        from motion(2) show ?thesis
        proof (cases rule: final_then_do)
          case (thrown x)
          then have "final (settle (target_ready e) (emit (Spawn args) s3)) = Some s'"
            by (simp add: final_def)
          from settle_keeps [OF this] k3 have "keeps s s'" by simp
          then show ?thesis using probe(1) play(1) motion(1) thrown
            by (intro early [of x]) (simp_all add: run then_do_def)
        next
          case ready: (returned u4 s4)
          then have "final (settle (target_ready e) (emit (Spawn args) s3)) = Some s4"
            by (simp add: final_def)
          from settle_keeps [OF this] k3 have k4: "keeps s s4" by simp
          from ready(2) show ?thesis
          proof (cases rule: final_then_do)
            case (thrown x)
            then have "final (settle (clip_measured e) s4) = Some s'" by (simp add: final_def)
            from settle_keeps [OF this] k4 have "keeps s s'" by simp
            then show ?thesis using probe(1) play(1) motion(1) ready(1) thrown
              by (intro early [of x]) (simp_all add: run then_do_def)
          next
            case clip: (returned u5 s5)
            then have "final (settle (clip_measured e) s4) = Some s5" by (simp add: final_def)
            from settle_keeps [OF this] k4 have k5: "keeps s s5" by simp
            from clip(2) show ?thesis
            proof (cases rule: final_then_do)
              case (thrown x)
              then show ?thesis by (simp add: final_date_now_Throw)
            next
              case clock: (returned now s6)
              from date_now_keeps [of s5 s6] clock(1) k5 have k6: "keeps s s6"
                by (auto simp: final_def intro: keeps_trans)
              have all: "run = capture e (cfg now) s6"
                using probe(1) play(1) motion(1) ready(1) clip(1) clock(1)
                by (simp add: run then_do_def)
              from capture_closings [OF clock(2)] k6 show ?thesis
                unfolding all by (auto simp: keeps_def split: res.splits)
            qed
          qed
        qed
      qed
    qed
  qed
qed

lemma genPageMp4_closings:
  assumes "final (genPageMp4 e opts pages s) = Some s'"
  shows "(orderly s \<longrightarrow> orderly s')
    \<and> (case genPageMp4 e opts pages s of
         Ok _ _ \<Rightarrow> ends s' = ends s + 1
       | Throw x _ \<Rightarrow> ends s' \<le> ends s + 2
       | Stuck \<Rightarrow> False)"
proof -
  have early: "genPageMp4 e opts pages s = Throw x s \<Longrightarrow> ?thesis" for x
    using assms by (simp add: final_def)
  consider (clicks) "\<not> opt_withClicks opts"
    | (fps) "opt_withClicks opts"
        "\<not> js_isInteger (opt_videoFps opts) \<or> js_lt (opt_videoFps opts) (Fin 1)
          \<or> js_lt (Fin 60) (opt_videoFps opts)"
    | (interval) "opt_withClicks opts"
        "\<not> (\<not> js_isInteger (opt_videoFps opts) \<or> js_lt (opt_videoFps opts) (Fin 1)
          \<or> js_lt (Fin 60) (opt_videoFps opts))"
        "\<not> js_isInteger (opt_videoInterval opts) \<or> js_lt (opt_videoInterval opts) (Fin 0)"
    | (checked) "opt_withClicks opts"
        "\<not> (\<not> js_isInteger (opt_videoFps opts) \<or> js_lt (opt_videoFps opts) (Fin 1)
          \<or> js_lt (Fin 60) (opt_videoFps opts))"
        "\<not> (\<not> js_isInteger (opt_videoInterval opts) \<or> js_lt (opt_videoInterval opts) (Fin 0))"
    by blast
  then show ?thesis
  proof cases
    case clicks
    show ?thesis by (rule early) (simp add: genPageMp4_def clicks)
  next
    case fps
    show ?thesis by (rule early) (simp only: genPageMp4_def fps simp_thms if_True if_False)
  next
    case interval
    show ?thesis by (rule early) (simp only: genPageMp4_def interval simp_thms if_True if_False)
  next
    case checked
    have body: "genPageMp4 e opts pages s =
        (case parseVideoMotionScale e (opt_videoMotionScale opts) of
           Inl x \<Rightarrow> Throw x s
         | Inr motionScale \<Rightarrow>
             if \<not> isContiguousRange pages
             then Throw (Error
               (''[slidev] MP4 export currently requires a contiguous --range (for example: ''
                 @ quoted ''1-5'' @ '').'')) s
             else
               then_do (waitForFfmpeg e s) (\<lambda>_ s1.
               then_do (goPlay e (startSlide pages) s1) (\<lambda>_ s2.
               then_do (if js_lt (Fin 1) motionScale then settle (motion_applied e) s2 else Ok () s2)
                 (\<lambda>_ s3.
               then_do (settle (target_ready e)
                   (emit (Spawn (ffmpegArgs e opts (speedup motionScale))) s3)) (\<lambda>_ s4.
               then_do (settle (clip_measured e) s4) (\<lambda>_ s5.
               then_do (date_now s5) (\<lambda>now s6.
                 capture e (capture_config opts motionScale pages now) s6)))))))"
      by (simp only: genPageMp4_def checked simp_thms if_True if_False)
    show ?thesis
    proof (cases "parseVideoMotionScale e (opt_videoMotionScale opts)")
      case (Inl x)
      show ?thesis by (rule early [of x]) (simp only: body Inl sum.case)
    next
      case (Inr motionScale)
      show ?thesis
      proof (cases "isContiguousRange pages")
        case False
        show ?thesis by (rule early) (simp only: body Inr sum.case False simp_thms if_True)
      next
        case True
        have run: "genPageMp4 e opts pages s =
            then_do (waitForFfmpeg e s) (\<lambda>_ s1.
            then_do (goPlay e (startSlide pages) s1) (\<lambda>_ s2.
            then_do (if js_lt (Fin 1) motionScale then settle (motion_applied e) s2 else Ok () s2)
              (\<lambda>_ s3.
            then_do (settle (target_ready e)
                (emit (Spawn (ffmpegArgs e opts (speedup motionScale))) s3)) (\<lambda>_ s4.
            then_do (settle (clip_measured e) s4) (\<lambda>_ s5.
            then_do (date_now s5) (\<lambda>now s6.
              capture e (capture_config opts motionScale pages now) s6))))))"
          by (simp only: body Inr sum.case True simp_thms if_False)
        from run assms show ?thesis by (rule setup_keeps)
      qed
    qed
  qed
qed

lemma exportSlides_closings:
  assumes "final (exportSlides e opts s) = Some s'"
  shows "(orderly s \<longrightarrow> orderly s')
    \<and> (case exportSlides e opts s of
         Ok _ _ \<Rightarrow> ends s' = ends s + 1
       | Throw x _ \<Rightarrow> ends s' \<le> ends s + 2
       | Stuck \<Rightarrow> False)"
proof (cases "browser_launch e")
  case (Inl x)
  then show ?thesis using assms by (simp add: exportSlides_def final_def)
next
  case (Inr pages)
  then show ?thesis using assms genPageMp4_closings [of e opts pages s s']
    by (simp add: exportSlides_def)
qed

text \<open>
  In every world the frames reach the encoder in the order of their capture; an export that
  returns has closed the encoder's input once, and an export that throws has closed it at most
  twice.
\<close>

lemma frames_in_capture_order:
  assumes "final (exportSlides e opts (start readings)) = Some s'"
  shows "in_capture_order None (trace s')"
  using exportSlides_closings [OF assms] by (simp add: orderly_def start_def)

lemma closings_of_an_export:
  "exportSlides e opts (start readings) = Ok u s' \<Longrightarrow>
     closings (exportSlides e opts (start readings)) = 1"
  "exportSlides e opts (start readings) = Throw x s' \<Longrightarrow>
     closings (exportSlides e opts (start readings)) \<le> 2"
  using exportSlides_closings [of e opts "start readings" s']
  by (simp_all add: final_def closings_def ends_def start_def)

section \<open>The closing of the encoder's input\<close>

text \<open>
  C3. The frames are written in the order of their capture, in every world (above). The
  claim also asks for exactly one \<open>ffmpeg.stdin.end()\<close> per job, and that fails. An encoder
  that exits with an error after the last frame is closed twice: \<open>await ffmpegDone\<close> stands
  inside the \<open>try\<close> block, behind the first \<open>end()\<close>, and the handler of the error closes
  again. A failure of \<open>target.waitFor()\<close> comes after the spawn and before the \<open>try\<close>
  block: the encoder's input is never closed. The export that succeeds closes once.
\<close>

theorem encoder_input_closings:
  "closings (exportSlides
      ((example_env (\<lambda>k. no_bridge_page))\<lparr>ffmpegDone := Inl (Error ''ffmpeg exited with code 1'')\<rparr>)
      example_opts (start [0, 0, 400, 410, 450, 460, 520, 530])) = 2
   \<and> spawned (exportSlides
      ((example_env (\<lambda>k. no_bridge_page))\<lparr>target_ready := Inl (Error ''Timeout 30000ms exceeded.'')\<rparr>)
      example_opts (start [0, 0, 400, 410, 450, 460, 520, 530]))
   \<and> closings (exportSlides
      ((example_env (\<lambda>k. no_bridge_page))\<lparr>target_ready := Inl (Error ''Timeout 30000ms exceeded.'')\<rparr>)
      example_opts (start [0, 0, 400, 410, 450, 460, 520, 530])) = 0
   \<and> closings (exportSlides (example_env (\<lambda>k. no_bridge_page))
      example_opts (start [0, 0, 400, 410, 450, 460, 520, 530])) = 1"
  by code_simp

section \<open>Properties of the video export jobs\<close>


lemma list_all_map_set: "P (k, v) \<Longrightarrow> list_all P xs \<Longrightarrow> list_all P (map_set k v xs)"
  by (induction xs) auto

lemma list_all_cleanupJobs: "list_all P js \<Longrightarrow> list_all P (cleanupJobs now js)"
  by (simp add: cleanupJobs_def list_all_iff)

lemma post_video_ok:
  assumes "\<And>a b. path_resolve nd a b \<noteq> []" "uuid inp \<noteq> []" "registry_ok st"
  shows "registry_ok (snd (post_video sv nd e inp st))"
  using assms
  by (auto simp: post_video_def registry_ok_def has_file_def has_output_def truthy_str_def
      intro!: list_all_map_set split: sum.splits)

lemma handle_ok:
  assumes "\<And>a b. path_resolve nd a b \<noteq> []" "uuid inp \<noteq> []" "registry_ok st"
  shows "registry_ok (snd (handle sv nd e now inp req st))"
proof -
  let ?st = "st\<lparr>jobs := cleanupJobs now (jobs st)\<rparr>"
  have swept: "registry_ok ?st"
    using assms(3) by (simp add: registry_ok_def list_all_cleanupJobs)
  have "registry_ok (snd (post_video sv nd e inp ?st))"
    by (rule post_video_ok [OF assms(1,2) swept])
  then show ?thesis
    using swept by (auto simp: handle_def split: route.splits option.splits)
qed

lemma task_ends_ok:
  assumes "registry_ok st"
  shows "registry_ok (task_ends sv jobId w s now st)"
proof (cases "map_of (tasks st) jobId")
  case None
  then show ?thesis using assms by (simp add: task_ends_def)
next
  case (Some t)
  then have "(jobId, t) \<in> set (tasks st)" by (rule map_of_SomeD)
  then have o: "jobId \<noteq> []" "t_output t \<noteq> []"
    using assms by (auto simp: registry_ok_def list_all_iff has_output_def)
  have rest: "list_all has_output (filter (\<lambda>p. fst p \<noteq> jobId) (tasks st))"
    using assms by (simp add: registry_ok_def list_all_iff)
  show ?thesis
    using Some o rest assms
    by (cases "run_export w (opt_export sv) (t_args t) s")
      (auto simp: task_ends_def registry_ok_def has_file_def truthy_str_def
        intro!: list_all_map_set)
qed

lemma service_run_ok:
  assumes "\<And>a b. path_resolve nd a b \<noteq> []" "list_all fresh_id evs"
  shows "registry_ok (service_run sv nd e evs)"
  using assms(2)
proof (induction evs rule: rev_induct)
  case Nil
  then show ?case by (simp add: service_run_def registry_ok_def)
next
  case (snoc ev evs)
  then have ih: "registry_ok (service_run sv nd e evs)" and f: "fresh_id ev" by simp_all
  have "service_run sv nd e (evs @ [ev]) = service_step sv nd e (service_run sv nd e evs) ev"
    by (simp add: service_run_def)
  moreover have "registry_ok (service_step sv nd e (service_run sv nd e evs) ev)"
  proof (cases ev)
    case (Request now inp req)
    then show ?thesis
      using handle_ok [OF assms(1) _ ih] f by (simp add: service_step_def fresh_id_def)
  next
    case (TaskEnds jobId w s now)
    then show ?thesis using task_ends_ok [OF ih] by (simp add: service_step_def)
  qed
  ultimately show ?case by simp
qed

lemma descriptor_ok:
  "has_file (jobId, job) \<Longrightarrow> url_iff_done_file (resolveJobResponse nd now job (Some jobId))"
  by (auto simp: has_file_def url_iff_done_file_def resolveJobResponse_def truthy_str_def)

lemma listJobs_ok:
  assumes "list_all has_file js"
  shows "list_all url_iff_done_file (listJobs nd now js)"
proof -
  have "list_all url_iff_done_file (map (\<lambda>(jobId, job). resolveJobResponse nd now job (Some jobId)) js)"
    using assms by (auto simp: list_all_iff intro: descriptor_ok)
  then show ?thesis by (simp add: listJobs_def list_all_iff)
qed

lemma handle_descriptors_ok:
  assumes "registry_ok st"
  shows "list_all url_iff_done_file (descriptors (fst (handle sv nd e now inp req st)))"
proof -
  have swept: "list_all has_file (cleanupJobs now (jobs st))"
    using assms by (simp add: registry_ok_def list_all_cleanupJobs)
  have one: "\<And>jobId job. map_of (cleanupJobs now (jobs st)) jobId = Some job \<Longrightarrow>
      url_iff_done_file (resolveJobResponse nd now job (Some jobId))"
    using swept by (auto simp: list_all_iff dest!: map_of_SomeD intro: descriptor_ok)
  show ?thesis
  proof (cases "req_route req")
    case VideoRoot
    then show ?thesis
      by (auto simp: handle_def post_video_def descriptors_def split: sum.splits)
  next
    case (VideoJob jobId)
    then show ?thesis
      using listJobs_ok [OF swept] one
      by (auto simp: handle_def descriptors_def split: option.splits)
  next
    case (VideoJobDownload jobId)
    then show ?thesis
      by (auto simp: handle_def download_def descriptors_def split: option.splits)
  next
    case NoMatch
    then show ?thesis by (simp add: handle_def descriptors_def)
  qed
qed

lemma download_cases:
  "download nd jobId st =
     (if not_ready (jobs st) jobId then NotFound ''Export file not ready''
      else Stream (the (job_file (the (map_of (jobs st) jobId))))
             (path_basename nd (the (job_file (the (map_of (jobs st) jobId))))))"
  by (auto simp: download_def not_ready_def truthy_str_def split: option.splits)

text \<open>
  C7. In every state that requests and ends of tasks lead to from the empty registry, each
  job descriptor in a response, of the status route or of the list, has a download URL if
  and only if its status is \<open>done\<close> and its file is set. The download route answers 404
  exactly when the job is missing after the sweep, is not done or has no file; otherwise it
  streams the file as \<open>video/mp4\<close>, as an attachment under the file's base name.
\<close>

theorem download_url_and_download:
  assumes "\<And>a b. path_resolve nd a b \<noteq> []"
    and "list_all fresh_id evs"
  shows "list_all url_iff_done_file
      (descriptors (fst (handle sv nd e now inp req (service_run sv nd e evs))))
    \<and> (statusCode (fst (handle sv nd e now inp
            \<lparr>req_verb = ''GET'', req_route = VideoJobDownload jobId\<rparr> st)) = Some 404)
        = not_ready (cleanupJobs now (jobs st)) jobId
    \<and> fst (handle sv nd e now inp \<lparr>req_verb = ''GET'', req_route = VideoJobDownload jobId\<rparr> st)
        = (if not_ready (cleanupJobs now (jobs st)) jobId then NotFound ''Export file not ready''
           else Stream (the (job_file (the (map_of (cleanupJobs now (jobs st)) jobId))))
             (path_basename nd (the (job_file (the (map_of (cleanupJobs now (jobs st)) jobId))))))
    \<and> contentType (Stream f n) = Some ''video/mp4''
    \<and> contentDisposition (Stream f n) = Some (''attachment; filename='' @ quoted n)"
proof -
  have a: "list_all url_iff_done_file
      (descriptors (fst (handle sv nd e now inp req (service_run sv nd e evs))))"
    by (rule handle_descriptors_ok) (rule service_run_ok [OF assms])
  have b: "fst (handle sv nd e now inp \<lparr>req_verb = ''GET'', req_route = VideoJobDownload jobId\<rparr> st)
      = download nd jobId (st\<lparr>jobs := cleanupJobs now (jobs st)\<rparr>)"
    by (simp add: handle_def)
  show ?thesis
    using a unfolding b download_cases
    by (simp add: statusCode_def contentType_def contentDisposition_def)
qed

theorem download_url_and_download_witness:
  "map r_downloadUrl (descriptors (fst (handle example_options example_node
      (example_env (\<lambda>k. no_bridge_page)) 5000 (example_post empty_payload 5000)
      \<lparr>req_verb = ''GET'', req_route = VideoJob ''0b9e4c1a-7d2f''\<rparr>
      (service_run example_options example_node (example_env (\<lambda>k. no_bridge_page))
        [Request 1000
           (example_post (empty_payload\<lparr>p_videoInterval := Some (JNum (Fin 100))\<rparr>) 1000)
           \<lparr>req_verb = ''POST'', req_route = VideoRoot\<rparr>,
         TaskEnds ''0b9e4c1a-7d2f'' (example_env (\<lambda>k. no_bridge_page))
           (start [0, 0, 400, 410, 450, 460, 520, 530]) 4000]))))
     = [Some ''/__slidev/export/video/0b9e4c1a-7d2f/download'']
   \<and> fst (handle example_options example_node
      (example_env (\<lambda>k. no_bridge_page)) 5000 (example_post empty_payload 5000)
      \<lparr>req_verb = ''GET'', req_route = VideoJobDownload ''0b9e4c1a-7d2f''\<rparr>
      (service_run example_options example_node (example_env (\<lambda>k. no_bridge_page))
        [Request 1000
           (example_post (empty_payload\<lparr>p_videoInterval := Some (JNum (Fin 100))\<rparr>) 1000)
           \<lparr>req_verb = ''POST'', req_route = VideoRoot\<rparr>,
         TaskEnds ''0b9e4c1a-7d2f'' (example_env (\<lambda>k. no_bridge_page))
           (start [0, 0, 400, 410, 450, 460, 520, 530]) 4000]))
     = Stream ''/deck/slides-export-all-30fps-1920x1080-20261103-101500-0b9e4c1a.mp4''
         ''slides-export-all-30fps-1920x1080-20261103-101500-0b9e4c1a.mp4''"
proof -
  let ?e = "example_env (\<lambda>k. no_bridge_page)"
  let ?evs = "[Request 1000
           (example_post (empty_payload\<lparr>p_videoInterval := Some (JNum (Fin 100))\<rparr>) 1000)
           \<lparr>req_verb = ''POST'', req_route = VideoRoot\<rparr>,
         TaskEnds ''0b9e4c1a-7d2f'' ?e (start [0, 0, 400, 410, 450, 460, 520, 530]) 4000]"
  have a: "\<And>a b. path_resolve example_node a b \<noteq> []"
    by (simp add: example_node_def)
  have b: "list_all fresh_id ?evs"
    by (simp add: fresh_id_def example_post_def)
  have r: "map r_downloadUrl (descriptors (fst (handle example_options example_node
      ?e 5000 (example_post empty_payload 5000)
      \<lparr>req_verb = ''GET'', req_route = VideoJob ''0b9e4c1a-7d2f''\<rparr>
      (service_run example_options example_node ?e ?evs))))
     = [Some ''/__slidev/export/video/0b9e4c1a-7d2f/download'']
   \<and> fst (handle example_options example_node
      ?e 5000 (example_post empty_payload 5000)
      \<lparr>req_verb = ''GET'', req_route = VideoJobDownload ''0b9e4c1a-7d2f''\<rparr>
      (service_run example_options example_node ?e ?evs))
     = Stream ''/deck/slides-export-all-30fps-1920x1080-20261103-101500-0b9e4c1a.mp4''
         ''slides-export-all-30fps-1920x1080-20261103-101500-0b9e4c1a.mp4''"
    by code_simp
  from download_url_and_download [of example_node ?evs example_options ?e, OF a b] r
  show ?thesis by blast
qed

















end
